theory Spec2Isabelle
  imports Complex_Main "HOL-Library.Multiset"
begin

section \<open>Data model (types.ts)\<close>

text \<open>
  A JavaScript object has an identity besides its fields, and \<^verbatim>\<open>Array.prototype.includes\<close>
  compares objects by that identity. Block objects are never mutated by the program (every
  change builds a new object with a spread), so a block is modelled as the value of its
  fields together with \<open>oid\<close>, the address of the object. The fields \<open>bid\<close> and \<open>bvalue\<close>
  are the source's \<^verbatim>\<open>id\<close> and \<^verbatim>\<open>value\<close>; numbers are modelled as integers.
\<close>

type_synonym addr = int

record Block =
  oid :: addr
  bid :: string
  bvalue :: int
  isNew :: bool

record Cell =
  block :: "Block option"
  mergedBlock :: "Block option"

text \<open>The source's \<^verbatim>\<open>Vector\<close> has fields \<^verbatim>\<open>x\<close> and \<^verbatim>\<open>y\<close>, the source's \<^verbatim>\<open>Grid\<close> has
  \<^verbatim>\<open>size\<close> and \<^verbatim>\<open>rows\<close>.\<close>

record Vector =
  vx :: int
  vy :: int

record Grid =
  gsize :: int
  rows :: "Cell list list"

datatype Phase = INIT | INPUT | ACTIVE | TEST_WON | WON | SPAWN | TEST_GAME_OVER | GAME_OVER

text \<open>
  What the program can throw: a \<^verbatim>\<open>TypeError\<close> of the runtime (a property read or written on
  \<^verbatim>\<open>undefined\<close>), a \<^verbatim>\<open>RangeError\<close> of the runtime (an array of negative length), and the
  two \<^verbatim>\<open>Error\<close>s the source throws itself.
  \<open>OutsideListModel\<close> is not an exception of the program: it marks an array write beyond
  the end of the array (or at a negative key), which JavaScript performs silently and which
  leaves an array that a list of cells cannot represent. The store model of the last
  section represents such writes.
\<close>

datatype error =
    TypeError
  | RangeError
  | DirectionError
  | UnexpectedPhaseError Phase
  | IllTypedBlock
  | OutsideListModel

section \<open>Arrays\<close>

text \<open>\<^verbatim>\<open>xs[i]\<close>: \<open>None\<close> is \<^verbatim>\<open>undefined\<close>, read at any index outside the array.\<close>

definition elemAt :: "'a list \<Rightarrow> int \<Rightarrow> 'a option" where
  "elemAt xs i = (if 0 \<le> i \<and> i < int (length xs) then Some (xs ! nat i) else None)"

text \<open>\<^verbatim>\<open>xs[i] = v\<close> on an array without holes.\<close>

definition arrayAssign :: "'a list \<Rightarrow> int \<Rightarrow> 'a \<Rightarrow> error + 'a list" where
  "arrayAssign xs i v =
     (if 0 \<le> i \<and> i < int (length xs) then Inr (xs[nat i := v])
      else if i = int (length xs) then Inr (xs @ [v])
      else Inl OutsideListModel)"

text \<open>The indices a loop \<^verbatim>\<open>for (let i = 0; i < n; ++i)\<close> runs through.\<close>

definition upTo :: "int \<Rightarrow> int list" where
  "upTo n = map int [0..<nat n]"

text \<open>An exception thrown by the callback of \<^verbatim>\<open>map\<close> leaves the whole \<^verbatim>\<open>map\<close>.\<close>

fun collect :: "(error + 'a) list \<Rightarrow> error + 'a list" where
  "collect [] = Inr []"
| "collect (r # rs) =
     (case r of Inl e \<Rightarrow> Inl e
      | Inr v \<Rightarrow> (case collect rs of Inl e \<Rightarrow> Inl e | Inr vs \<Rightarrow> Inr (v # vs)))"

text \<open>An array whose elements may be \<^verbatim>\<open>undefined\<close> at run time, handed to code that reads a
  property of every element: the first \<^verbatim>\<open>undefined\<close> element is a \<^verbatim>\<open>TypeError\<close>.\<close>

definition definedCells :: "Cell option list \<Rightarrow> error + Cell list" where
  "definedCells cells = collect (map (\<lambda>c. case c of None \<Rightarrow> Inl TypeError | Some v \<Rightarrow> Inr v) cells)"

section \<open>Grid store (gridUtils.ts)\<close>

definition makeEmptyCell :: Cell where
  "makeEmptyCell = \<lparr>block = None, mergedBlock = None\<rparr>"

text \<open>\<^verbatim>\<open>makeNewBlock(value)\<close>; the address of the new object and the uuid are inputs.\<close>

definition makeNewBlock :: "addr \<Rightarrow> string \<Rightarrow> int \<Rightarrow> Block" where
  "makeNewBlock a uuid v = \<lparr>oid = a, bid = uuid, bvalue = v, isNew = True\<rparr>"

text \<open>\<^verbatim>\<open>makeEmptyGrid(size)\<close>: \<^verbatim>\<open>new Array(size)\<close> throws a \<^verbatim>\<open>RangeError\<close> for a negative size.\<close>

definition makeEmptyGrid :: "int \<Rightarrow> error + Grid" where
  "makeEmptyGrid n =
     (if n < 0 then Inl RangeError
      else Inr \<lparr>gsize = n, rows = map (\<lambda>_. map (\<lambda>_. makeEmptyCell) (upTo n)) (upTo n)\<rparr>)"

definition cloneGrid :: "Grid \<Rightarrow> Grid" where
  "cloneGrid grid = \<lparr>gsize = gsize grid, rows = map (\<lambda>row. row) (rows grid)\<rparr>"

text \<open>\<^verbatim>\<open>grid.rows[position.y][position.x]\<close>: a missing row is a \<^verbatim>\<open>TypeError\<close>, a missing
  column reads \<^verbatim>\<open>undefined\<close>.\<close>

definition getCellAt :: "Vector \<Rightarrow> Grid \<Rightarrow> error + Cell option" where
  "getCellAt position grid =
     (case elemAt (rows grid) (vy position) of
        None \<Rightarrow> Inl TypeError
      | Some row \<Rightarrow> Inr (elemAt row (vx position)))"

definition setCellAt :: "Vector \<Rightarrow> Cell \<Rightarrow> Grid \<Rightarrow> error + Grid" where
  "setCellAt position cell grid =
     (case elemAt (rows grid) (vy position) of
        None \<Rightarrow> Inl TypeError
      | Some row \<Rightarrow>
          (case arrayAssign row (vx position) cell of
             Inl e \<Rightarrow> Inl e
           | Inr row' \<Rightarrow> Inr (grid\<lparr>rows := (rows grid)[nat (vy position) := row']\<rparr>)))"

text \<open>\<^verbatim>\<open>grid.rows[position.y][position.x].block = block\<close>. In this state-passing model the
  changed cell is put back at its place; what the assignment does to other grids that hold
  the same cell object is the subject of the store model.\<close>

definition setBlockAt :: "Vector \<Rightarrow> Block option \<Rightarrow> Grid \<Rightarrow> error + Grid" where
  "setBlockAt position b grid =
     (case elemAt (rows grid) (vy position) of
        None \<Rightarrow> Inl TypeError
      | Some row \<Rightarrow>
          (case elemAt row (vx position) of
             None \<Rightarrow> Inl TypeError
           | Some cell \<Rightarrow>
               Inr (grid\<lparr>rows := (rows grid)[nat (vy position) :=
                      row[nat (vx position) := cell\<lparr>block := b\<rparr>]]\<rparr>)))"

definition pluckBlocks :: "Cell list \<Rightarrow> Block option list" where
  "pluckBlocks cells = map block cells"

definition getColumnAt :: "int \<Rightarrow> Grid \<Rightarrow> Cell option list" where
  "getColumnAt x grid = map (\<lambda>row. elemAt row x) (rows grid)"

text \<open>\<^verbatim>\<open>column.forEach((cell, y) => { grid.rows[y][x] = cell })\<close>\<close>

fun setColumnFrom :: "int \<Rightarrow> (int \<times> Cell) list \<Rightarrow> Grid \<Rightarrow> error + Grid" where
  "setColumnFrom x [] grid = Inr grid"
| "setColumnFrom x ((y, cell) # rest) grid =
     (case setCellAt \<lparr>vx = x, vy = y\<rparr> cell grid of
        Inl e \<Rightarrow> Inl e
      | Inr grid' \<Rightarrow> setColumnFrom x rest grid')"

definition setColumnAt :: "int \<Rightarrow> Cell list \<Rightarrow> Grid \<Rightarrow> error + Grid" where
  "setColumnAt x column grid = setColumnFrom x (zip (upTo (int (length column))) column) grid"

definition getRowAt :: "int \<Rightarrow> Grid \<Rightarrow> Cell list option" where
  "getRowAt y grid = elemAt (rows grid) y"

definition setRowAt :: "int \<Rightarrow> Cell list \<Rightarrow> Grid \<Rightarrow> error + Grid" where
  "setRowAt y row grid =
     (case arrayAssign (rows grid) y row of
        Inl e \<Rightarrow> Inl e
      | Inr rows' \<Rightarrow> Inr (grid\<lparr>rows := rows'\<rparr>))"

text \<open>
  \<^verbatim>\<open>iterateCells(grid, iterator)\<close>. The iterator is a closure: it may throw, it may change
  the variables it captured (the state \<open>'s\<close>) and the grid, and returning \<^verbatim>\<open>false\<close> ends the
  iteration. Its result here is \<open>(res \<noteq> false, grid, state)\<close>. The two nested loops visit
  \<open>cellPositions\<close> in order: \<^verbatim>\<open>x\<close> is the outer loop and \<^verbatim>\<open>y\<close> the inner one.
\<close>

type_synonym 's CellIterator =
  "Cell option \<Rightarrow> Vector \<Rightarrow> Grid \<Rightarrow> 's \<Rightarrow> error + (bool \<times> Grid \<times> 's)"

definition cellPositions :: "int \<Rightarrow> Vector list" where
  "cellPositions n = concat (map (\<lambda>x. map (\<lambda>y. \<lparr>vx = x, vy = y\<rparr>) (upTo n)) (upTo n))"

fun iterateFrom :: "'s CellIterator \<Rightarrow> Vector list \<Rightarrow> Grid \<Rightarrow> 's \<Rightarrow> error + (Grid \<times> 's)" where
  "iterateFrom iterator [] grid s = Inr (grid, s)"
| "iterateFrom iterator (position # rest) grid s =
     (case getCellAt position grid of
        Inl e \<Rightarrow> Inl e
      | Inr cell \<Rightarrow>
          (case iterator cell position grid s of
             Inl e \<Rightarrow> Inl e
           | Inr (res, grid', s') \<Rightarrow>
               if res then iterateFrom iterator rest grid' s' else Inr (grid', s')))"

definition iterateCells :: "Grid \<Rightarrow> 's CellIterator \<Rightarrow> 's \<Rightarrow> error + (Grid \<times> 's)" where
  "iterateCells grid iterator s = iterateFrom iterator (cellPositions (gsize grid)) grid s"

text \<open>\<^verbatim>\<open>updateCells\<close>: the iterator writes the updated cell back into the grid it iterates.\<close>

definition updateCells :: "Grid \<Rightarrow> (Cell option \<Rightarrow> Vector \<Rightarrow> error + Cell) \<Rightarrow> error + Grid" where
  "updateCells grid updateCell =
     (case iterateCells grid
             (\<lambda>cell position g (u::unit).
                case updateCell cell position of
                  Inl e \<Rightarrow> Inl e
                | Inr cell' \<Rightarrow>
                    (case setCellAt position cell' g of
                       Inl e \<Rightarrow> Inl e
                     | Inr g' \<Rightarrow> Inr (True, g', u))) ()
      of Inl e \<Rightarrow> Inl e | Inr (g, _) \<Rightarrow> Inr g)"

definition findEmptyCellPositions :: "Grid \<Rightarrow> error + Vector list" where
  "findEmptyCellPositions grid =
     (case iterateCells grid
             (\<lambda>cell position g result.
                case cell of
                  None \<Rightarrow> Inl TypeError
                | Some c \<Rightarrow> Inr (True, g, if block c = None then result @ [position] else result)) []
      of Inl e \<Rightarrow> Inl e | Inr (_, result) \<Rightarrow> Inr result)"

definition hasNewCell :: "Grid \<Rightarrow> error + bool" where
  "hasNewCell grid =
     (case iterateCells grid
             (\<lambda>cell position g result.
                case cell of
                  None \<Rightarrow> Inl TypeError
                | Some c \<Rightarrow>
                    Inr (True, g, if (case block c of None \<Rightarrow> False | Some b \<Rightarrow> isNew b) then True else result))
             False
      of Inl e \<Rightarrow> Inl e | Inr (_, result) \<Rightarrow> Inr result)"

section \<open>Merge resolver (gridUtils.ts)\<close>

record BlockPairs =
  hasBlockPairs :: bool
  blockPairs :: "Block list list"

text \<open>\<^verbatim>\<open>blocks[index]\<close>, where the entry may also be \<^verbatim>\<open>null\<close> (the caller \<^verbatim>\<open>hasLost\<close> casts
  a list of nullable blocks): \<^verbatim>\<open>undefined\<close> and \<^verbatim>\<open>null\<close> are both falsy and both give
  \<^verbatim>\<open>undefined\<close> under \<^verbatim>\<open>?.value\<close>, so both are \<open>None\<close>.\<close>

definition blockAt :: "Block option list \<Rightarrow> int \<Rightarrow> Block option" where
  "blockAt blocks i = (case elemAt blocks i of Some (Some b) \<Rightarrow> Some b | _ \<Rightarrow> None)"

text \<open>\<^verbatim>\<open>pairedBlocks.includes(b)\<close>: identity of objects.\<close>

definition arrayIncludes :: "Block list \<Rightarrow> Block \<Rightarrow> bool" where
  "arrayIncludes bs b = (oid b \<in> set (map oid bs))"

definition addToBlockPairs :: "int \<Rightarrow> Block list \<Rightarrow> Block list list \<Rightarrow> Block list list" where
  "addToBlockPairs direction blockPair bps =
     (if direction = 1 then blockPair # bps else bps @ [blockPair])"

text \<open>One pass of the body of the loop, on the pair (\<^verbatim>\<open>blockPairs\<close>, \<^verbatim>\<open>pairedBlocks\<close>).\<close>

definition findBlockPairsStep ::
  "int \<Rightarrow> Block option list \<Rightarrow> Block list list \<times> Block list \<Rightarrow> nat \<Rightarrow> Block list list \<times> Block list" where
  "findBlockPairsStep direction blocks st i =
     (case st of (bps, pairedBlocks) \<Rightarrow>
        let index = (if direction = 1 then int (length blocks) - int i - 1 else int i);
            lastIndex = index + direction
        in (case blockAt blocks lastIndex of
             None \<Rightarrow> (bps, pairedBlocks)
           | Some lastBlock \<Rightarrow>
               (if arrayIncludes pairedBlocks lastBlock then (bps, pairedBlocks)
                else
                  (case blockAt blocks index of
                     Some b \<Rightarrow>
                       (if bvalue b = bvalue lastBlock
                        then (addToBlockPairs direction
                               (if direction = 1 then [lastBlock, b] else [b, lastBlock]) bps,
                              pairedBlocks @ [b, lastBlock])
                        else if \<not> arrayIncludes pairedBlocks lastBlock
                             then (addToBlockPairs direction [lastBlock] bps, pairedBlocks)
                             else (bps, pairedBlocks))
                   | None \<Rightarrow>
                       (if \<not> arrayIncludes pairedBlocks lastBlock
                        then (addToBlockPairs direction [lastBlock] bps, pairedBlocks)
                        else (bps, pairedBlocks))))))"

definition findBlockPairs :: "int \<Rightarrow> Block option list \<Rightarrow> BlockPairs" where
  "findBlockPairs direction blocks =
     (case foldl (findBlockPairsStep direction blocks) ([], []) [0..<Suc (length blocks)] of
        (bps, pairedBlocks) \<Rightarrow> \<lparr>hasBlockPairs = (pairedBlocks \<noteq> []), blockPairs = bps\<rparr>)"

text \<open>
  The callback of \<^verbatim>\<open>cells.map\<close> in \<^verbatim>\<open>resolveColumnOrRowInDirection\<close>. \<open>a\<close> is the address of
  the block object that the callback builds for a merged cell. A group with no block would
  make \<^verbatim>\<open>baseBlock.value\<close> a \<^verbatim>\<open>TypeError\<close>.
\<close>

definition resolveCell :: "int \<Rightarrow> addr \<Rightarrow> Block list list \<Rightarrow> nat \<Rightarrow> nat \<Rightarrow> Cell \<Rightarrow> error + Cell" where
  "resolveCell direction a bps len index cell =
     (let cellCount = int (length bps);
          blockPairIndex = (if direction = 1 then cellCount - int len + int index else int index)
      in case elemAt bps blockPairIndex of
           None \<Rightarrow> Inr (cell\<lparr>block := None, mergedBlock := None\<rparr>)
         | Some cellBlockPairs \<Rightarrow>
             if length cellBlockPairs = 1
             then Inr (cell\<lparr>block := Some (hd cellBlockPairs), mergedBlock := None\<rparr>)
             else
               (case (if direction = 1 then rev cellBlockPairs else cellBlockPairs) of
                  baseBlock # blockToMerge # _ \<Rightarrow>
                    Inr (cell\<lparr>block := Some (baseBlock\<lparr>oid := a,
                                   bvalue := bvalue baseBlock + bvalue blockToMerge\<rparr>),
                              mergedBlock := Some blockToMerge\<rparr>)
                | _ \<Rightarrow> Inl TypeError))"

text \<open>\<open>alloc index\<close> is the address the runtime gives to the block object built at \<open>index\<close>.\<close>

definition resolveColumnOrRowInDirection ::
  "int \<Rightarrow> (nat \<Rightarrow> addr) \<Rightarrow> Cell list \<Rightarrow> error + Cell list" where
  "resolveColumnOrRowInDirection direction alloc cells =
     (let blocksWithValues = filter (\<lambda>b. b \<noteq> None) (pluckBlocks cells)
      in if blocksWithValues = [] then Inr cells
         else
           let bps = blockPairs (findBlockPairs direction blocksWithValues)
           in collect (map (\<lambda>(index, cell). resolveCell direction (alloc index) bps (length cells) index cell)
                         (zip [0..<length cells] cells)))"

text \<open>The two loops of \<^verbatim>\<open>resolveCellsInDirection\<close>; \<open>alloc line index\<close> is the address of
  the block object built for cell \<open>index\<close> of column or row \<open>line\<close>.\<close>

fun resolveColumns :: "int \<Rightarrow> (nat \<Rightarrow> nat \<Rightarrow> addr) \<Rightarrow> int list \<Rightarrow> Grid \<Rightarrow> error + Grid" where
  "resolveColumns dy alloc [] nextGrid = Inr nextGrid"
| "resolveColumns dy alloc (x # xs) nextGrid =
     (case definedCells (getColumnAt x nextGrid) of
        Inl e \<Rightarrow> Inl e
      | Inr column \<Rightarrow>
          (case resolveColumnOrRowInDirection dy (alloc (nat x)) column of
             Inl e \<Rightarrow> Inl e
           | Inr nextColumn \<Rightarrow>
               (case setColumnAt x nextColumn nextGrid of
                  Inl e \<Rightarrow> Inl e
                | Inr g \<Rightarrow> resolveColumns dy alloc xs g)))"

fun resolveRows :: "int \<Rightarrow> (nat \<Rightarrow> nat \<Rightarrow> addr) \<Rightarrow> int list \<Rightarrow> Grid \<Rightarrow> error + Grid" where
  "resolveRows dx alloc [] nextGrid = Inr nextGrid"
| "resolveRows dx alloc (y # ys) nextGrid =
     (case getRowAt y nextGrid of
        None \<Rightarrow> Inl TypeError
      | Some row \<Rightarrow>
          (case resolveColumnOrRowInDirection dx (alloc (nat y)) row of
             Inl e \<Rightarrow> Inl e
           | Inr nextRow \<Rightarrow>
               (case setRowAt y nextRow nextGrid of
                  Inl e \<Rightarrow> Inl e
                | Inr g \<Rightarrow> resolveRows dx alloc ys g)))"

definition resolveCellsInDirection :: "Vector \<Rightarrow> (nat \<Rightarrow> nat \<Rightarrow> addr) \<Rightarrow> Grid \<Rightarrow> error + Grid" where
  "resolveCellsInDirection direction alloc grid =
     (let nextGrid = cloneGrid grid
      in if vx direction = 0 then resolveColumns (vy direction) alloc (upTo (gsize nextGrid)) nextGrid
         else if vy direction = 0 then resolveRows (vx direction) alloc (upTo (gsize nextGrid)) nextGrid
         else Inl DirectionError)"

section \<open>Terminal-state detector (gridUtils.ts)\<close>

text \<open>A loop of \<^verbatim>\<open>hasLost\<close> over the columns or the rows: \<open>Inr True\<close> when the loop left
  \<^verbatim>\<open>hasLost\<close> through \<^verbatim>\<open>return false\<close> (a pair was found), \<open>Inr False\<close> when it ran to its end.\<close>

fun anyLineHasPairs :: "(int \<Rightarrow> error + Block option list) \<Rightarrow> int list \<Rightarrow> error + bool" where
  "anyLineHasPairs line [] = Inr False"
| "anyLineHasPairs line (i # rest) =
     (case line i of
        Inl e \<Rightarrow> Inl e
      | Inr blocks \<Rightarrow>
          if hasBlockPairs (findBlockPairs 1 blocks) then Inr True else anyLineHasPairs line rest)"

definition columnBlocks :: "Grid \<Rightarrow> int \<Rightarrow> error + Block option list" where
  "columnBlocks grid x =
     (case definedCells (getColumnAt x grid) of Inl e \<Rightarrow> Inl e | Inr column \<Rightarrow> Inr (pluckBlocks column))"

definition rowBlocks :: "Grid \<Rightarrow> int \<Rightarrow> error + Block option list" where
  "rowBlocks grid y =
     (case getRowAt y grid of None \<Rightarrow> Inl TypeError | Some row \<Rightarrow> Inr (pluckBlocks row))"

definition hasLost :: "Grid \<Rightarrow> error + bool" where
  "hasLost grid =
     (case findEmptyCellPositions grid of
        Inl e \<Rightarrow> Inl e
      | Inr emptyCells \<Rightarrow>
          if emptyCells \<noteq> [] then Inr False
          else
            (case anyLineHasPairs (columnBlocks grid) (upTo (gsize grid)) of
               Inl e \<Rightarrow> Inl e
             | Inr True \<Rightarrow> Inr False
             | Inr False \<Rightarrow>
                 (case anyLineHasPairs (rowBlocks grid) (upTo (gsize grid)) of
                    Inl e \<Rightarrow> Inl e
                  | Inr True \<Rightarrow> Inr False
                  | Inr False \<Rightarrow> Inr True)))"

definition hasWon :: "Grid \<Rightarrow> error + bool" where
  "hasWon grid =
     (case iterateCells grid
             (\<lambda>cell position g maxBlockValue.
                case cell of
                  None \<Rightarrow> Inl TypeError
                | Some c \<Rightarrow>
                    Inr (True, g, max maxBlockValue (case block c of None \<Rightarrow> 0 | Some b \<Rightarrow> bvalue b)))
             (0::int)
      of Inl e \<Rightarrow> Inl e | Inr (_, maxBlockValue) \<Rightarrow> Inr (maxBlockValue = 2048))"

section \<open>Random choice (utils.ts)\<close>

text \<open>\<open>r\<close> is the value \<^verbatim>\<open>Math.random()\<close> returned, a number with \<open>0 \<le> r < 1\<close>; the arithmetic
  is exact here. The bounds are integers wherever the program calls the function, so
  \<^verbatim>\<open>Math.ceil(min)\<close> and \<^verbatim>\<open>Math.floor(max)\<close> change nothing.\<close>

definition randomIntInclusive :: "real \<Rightarrow> int \<Rightarrow> int \<Rightarrow> int" where
  "randomIntInclusive r lo hi = \<lfloor>r * of_int (hi - lo + 1) + of_int lo\<rfloor>"

definition arrayRandomItem :: "real \<Rightarrow> 'a list \<Rightarrow> 'a option" where
  "arrayRandomItem r arr = elemAt arr (randomIntInclusive r 0 (int (length arr) - 1))"

section \<open>Phase state machine (use2048.ts)\<close>

record State =
  sphase :: Phase
  sgrid :: Grid

text \<open>The position of \<^verbatim>\<open>ADD_NEW_BLOCK\<close> is whatever \<^verbatim>\<open>arrayRandomItem\<close> returned, which can
  be \<^verbatim>\<open>undefined\<close>.\<close>

datatype Action =
    SET_PHASE Phase
  | SET_MOVED_DIRECTION Vector
  | ADD_NEW_BLOCK "Vector option" Block
  | CLEAR_TRANSIENT_STATE Phase
  | RESTART

text \<open>What the runtime supplies: the two random numbers and the uuid drawn by a restart,
  and the addresses of the objects built by \<^verbatim>\<open>makeNewBlock\<close>, by a merge (per line and cell
  index) and by the clearing of the transient state (per position).\<close>

record Runtime =
  randomX :: real
  randomY :: real
  newUuid :: string
  newBlockAddr :: addr
  mergeAddr :: "nat \<Rightarrow> nat \<Rightarrow> addr"
  clearAddr :: "Vector \<Rightarrow> addr"

definition initReducer :: "Runtime \<Rightarrow> int \<Rightarrow> error + State" where
  "initReducer rt n =
     (case makeEmptyGrid n of
        Inl e \<Rightarrow> Inl e
      | Inr g \<Rightarrow>
          (let x = randomIntInclusive (randomX rt) 0 (n - 1);
               y = randomIntInclusive (randomY rt) 0 (n - 1)
           in (case setBlockAt \<lparr>vx = x, vy = y\<rparr> (Some (makeNewBlock (newBlockAddr rt) (newUuid rt) 2)) g of
                 Inl e \<Rightarrow> Inl e
               | Inr g' \<Rightarrow> Inr \<lparr>sphase = INIT, sgrid = g'\<rparr>)))"

text \<open>
  The cell updater of \<^verbatim>\<open>CLEAR_TRANSIENT_STATE\<close>. A cell with a merged block and no block
  would give the object \<^verbatim>\<open>{isNew: false}\<close>, which has no id and no value and is not a
  \<open>Block\<close>: the source asserts with \<^verbatim>\<open>block as Block\<close> that this does not happen, and the
  model stops there with \<open>IllTypedBlock\<close>.
\<close>

definition clearTransient :: "Runtime \<Rightarrow> Cell option \<Rightarrow> Vector \<Rightarrow> error + Cell" where
  "clearTransient rt cell position =
     (case cell of
        None \<Rightarrow> Inl TypeError
      | Some c \<Rightarrow>
          if mergedBlock c = None \<and> \<not> (case block c of None \<Rightarrow> False | Some b \<Rightarrow> isNew b)
          then Inr c
          else (case block c of
                  None \<Rightarrow> Inl IllTypedBlock
                | Some b \<Rightarrow>
                    Inr \<lparr>block = Some (b\<lparr>oid := clearAddr rt position, isNew := False\<rparr>),
                         mergedBlock = None\<rparr>))"

fun reducer :: "Runtime \<Rightarrow> State \<Rightarrow> Action \<Rightarrow> error + State" where
  "reducer rt state (SET_PHASE p) = Inr (state\<lparr>sphase := p\<rparr>)"
| "reducer rt state (SET_MOVED_DIRECTION direction) =
     (case resolveCellsInDirection direction (mergeAddr rt) (sgrid state) of
        Inl e \<Rightarrow> Inl e
      | Inr g \<Rightarrow> Inr \<lparr>sphase = ACTIVE, sgrid = g\<rparr>)"
| "reducer rt state (ADD_NEW_BLOCK position b) =
     (let nextGrid = cloneGrid (sgrid state)
      in (case position of
            None \<Rightarrow> Inl TypeError
          | Some p \<Rightarrow>
              (case setBlockAt p (Some b) nextGrid of
                 Inl e \<Rightarrow> Inl e
               | Inr g \<Rightarrow> Inr (state\<lparr>sgrid := g\<rparr>))))"
| "reducer rt state (CLEAR_TRANSIENT_STATE nextPhase) =
     (let nextGrid = cloneGrid (sgrid state)
      in (case updateCells nextGrid (clearTransient rt) of
            Inl e \<Rightarrow> Inl e
          | Inr g \<Rightarrow> Inr \<lparr>sphase = nextPhase, sgrid = g\<rparr>))"
| "reducer rt state RESTART = initReducer rt (gsize (sgrid state))"

definition KEY_DIRECTION_MAP :: "string \<Rightarrow> Vector option" where
  "KEY_DIRECTION_MAP k =
     (if k = ''ArrowLeft'' then Some \<lparr>vx = -1, vy = 0\<rparr>
      else if k = ''ArrowRight'' then Some \<lparr>vx = 1, vy = 0\<rparr>
      else if k = ''ArrowUp'' then Some \<lparr>vx = 0, vy = -1\<rparr>
      else if k = ''ArrowDown'' then Some \<lparr>vx = 0, vy = 1\<rparr>
      else None)"

text \<open>\<^verbatim>\<open>useBoxViewData\<close>: one entry per block and one more per merged block of a cell that
  has a block. An entry is the block, the grid position (the source maps it to a screen
  position, with floating-point arithmetic that no claim depends on) and \<^verbatim>\<open>isMerged\<close>.\<close>

definition useBoxViewData :: "Grid \<Rightarrow> error + (Block \<times> Vector \<times> bool) list" where
  "useBoxViewData g =
     (case iterateCells g
             (\<lambda>cell position g' result.
                case cell of
                  None \<Rightarrow> Inl TypeError
                | Some c \<Rightarrow>
                    (case block c of
                       None \<Rightarrow> Inr (True, g', result)
                     | Some b \<Rightarrow>
                         Inr (True, g',
                              (result @ [(b, position, False)]) @
                              (case mergedBlock c of None \<Rightarrow> [] | Some m \<Rightarrow> [(m, position, True)])))) []
      of Inl e \<Rightarrow> Inl e | Inr (_, result) \<Rightarrow> Inr result)"

subsection \<open>Animation-completion aggregator\<close>

definition nextPhaseMap :: "Phase \<Rightarrow> Phase option" where
  "nextPhaseMap p =
     (case p of INIT \<Rightarrow> Some INPUT | ACTIVE \<Rightarrow> Some TEST_WON | SPAWN \<Rightarrow> Some TEST_GAME_OVER
      | _ \<Rightarrow> None)"

definition totalCompleteCount :: "int \<Rightarrow> Phase \<Rightarrow> int" where
  "totalCompleteCount boxCount p = (if p = ACTIVE then boxCount else 1)"

text \<open>
  The callback of \<^verbatim>\<open>useBoxAnimationsCompleteCallback\<close>, for the \<^verbatim>\<open>boxCount\<close> and \<^verbatim>\<open>phase\<close> it
  closed over, run on the value of \<^verbatim>\<open>animationCompleteCount.current\<close>. It returns the new
  value of the counter and what the call did: nothing (\<open>Inr None\<close>), a dispatch, or a throw.
\<close>

definition animationComplete :: "int \<Rightarrow> Phase \<Rightarrow> int \<Rightarrow> int \<times> (error + Action option)" where
  "animationComplete boxCount p current =
     (let cnt = current + 1
      in if cnt = totalCompleteCount boxCount p
         then (0, (case nextPhaseMap p of
                     None \<Rightarrow> Inl (UnexpectedPhaseError p)
                   | Some nextPhase \<Rightarrow> Inr (Some (CLEAR_TRANSIENT_STATE nextPhase))))
         else (cnt, Inr None))"

text \<open>\<open>m\<close> completion signals in a row on the same callback: the counter at the end and the
  outcome of every call.\<close>

fun completions :: "int \<Rightarrow> Phase \<Rightarrow> nat \<Rightarrow> int \<Rightarrow> int \<times> (error + Action option) list" where
  "completions boxCount p 0 current = (current, [])"
| "completions boxCount p (Suc m) current =
     (case animationComplete boxCount p current of
        (current', out) \<Rightarrow>
          (case completions boxCount p m current' of
             (current'', outs) \<Rightarrow> (current'', out # outs)))"

subsection \<open>Phase handlers\<close>

text \<open>The effect of \<^verbatim>\<open>usePhaseSystem\<close> for the current phase: the action it dispatches, if
  any. \<open>r\<close> is the random number drawn by \<^verbatim>\<open>arrayRandomItem\<close>. The \<^verbatim>\<open>INPUT\<close> handler only
  installs the key listener, which is \<open>inputHandler\<close>.\<close>

definition inputHandler :: "string \<Rightarrow> Action option" where
  "inputHandler k = map_option SET_MOVED_DIRECTION (KEY_DIRECTION_MAP k)"

definition phaseHandler :: "Runtime \<Rightarrow> real \<Rightarrow> State \<Rightarrow> error + Action option" where
  "phaseHandler rt r state =
     (case sphase state of
        INIT \<Rightarrow> Inr None
      | INPUT \<Rightarrow> Inr None
      | ACTIVE \<Rightarrow> Inr None
      | TEST_WON \<Rightarrow>
          (case hasWon (sgrid state) of
             Inl e \<Rightarrow> Inl e
           | Inr w \<Rightarrow> Inr (Some (SET_PHASE (if w then WON else SPAWN))))
      | WON \<Rightarrow> Inr (Some RESTART)
      | SPAWN \<Rightarrow>
          (case hasNewCell (sgrid state) of
             Inl e \<Rightarrow> Inl e
           | Inr True \<Rightarrow> Inr None
           | Inr False \<Rightarrow>
               (case findEmptyCellPositions (sgrid state) of
                  Inl e \<Rightarrow> Inl e
                | Inr emptyCellPositions \<Rightarrow>
                    Inr (Some (ADD_NEW_BLOCK (arrayRandomItem r emptyCellPositions)
                                 (makeNewBlock (newBlockAddr rt) (newUuid rt) 2)))))
      | TEST_GAME_OVER \<Rightarrow>
          (case hasLost (sgrid state) of
             Inl e \<Rightarrow> Inl e
           | Inr l \<Rightarrow> Inr (Some (if l then SET_PHASE GAME_OVER else CLEAR_TRANSIENT_STATE INPUT)))
      | GAME_OVER \<Rightarrow> Inr (Some RESTART))"

section \<open>Predicates used to state the properties\<close>

text \<open>A grid as the program builds it: \<open>gsize\<close> rows of \<open>gsize\<close> cells.\<close>

definition wellFormed :: "Grid \<Rightarrow> bool" where
  "wellFormed g =
     (0 \<le> gsize g \<and> length (rows g) = nat (gsize g) \<and> (\<forall>row \<in> set (rows g). length row = nat (gsize g)))"

definition gridCells :: "Grid \<Rightarrow> Cell list" where
  "gridCells g = concat (rows g)"

definition columnOf :: "Grid \<Rightarrow> nat \<Rightarrow> Cell list" where
  "columnOf g x = map (\<lambda>row. row ! x) (rows g)"

definition gridColumns :: "Grid \<Rightarrow> Cell list list" where
  "gridColumns g = map (columnOf g) [0..<nat (gsize g)]"

text \<open>The blocks of a line of cells in order, the empty cells left out.\<close>

definition lineBlocks :: "Cell list \<Rightarrow> Block list" where
  "lineBlocks cells = concat (map (\<lambda>c. case block c of None \<Rightarrow> [] | Some b \<Rightarrow> [b]) cells)"

fun adjacentEqual :: "Block list \<Rightarrow> bool" where
  "adjacentEqual (a # b # rest) = (bvalue a = bvalue b \<or> adjacentEqual (b # rest))"
| "adjacentEqual _ = False"

text \<open>The cell at a position of a well-formed grid.\<close>

definition cellOf :: "Grid \<Rightarrow> Vector \<Rightarrow> Cell" where
  "cellOf g p = rows g ! nat (vy p) ! nat (vx p)"

text \<open>
  The greedy pairing along the scan: the blocks are listed from the destination edge on; a
  block and the next one form a pair when their values are equal, and the scan goes on
  after the pair. \<open>(a, Some b)\<close> is the pair of \<open>a\<close> (nearer the destination edge) and \<open>b\<close>,
  \<open>(a, None)\<close> is \<open>a\<close> alone.
\<close>

fun scanGroups :: "Block list \<Rightarrow> (Block \<times> Block option) list" where
  "scanGroups [] = []"
| "scanGroups [a] = [(a, None)]"
| "scanGroups (a # b # rest) =
     (if bvalue a = bvalue b then (a, Some b) # scanGroups rest
      else (a, None) # scanGroups (b # rest))"

definition blockValue :: "Cell \<Rightarrow> int" where
  "blockValue c = (case block c of None \<Rightarrow> 0 | Some b \<Rightarrow> bvalue b)"

section \<open>Example grids\<close>

text \<open>\<^verbatim>\<open>makeCellWithBlock\<close> of gridUtils.test.ts, with the address of the block object.\<close>

definition makeCellWithBlock :: "addr \<Rightarrow> string \<Rightarrow> int \<Rightarrow> Cell" where
  "makeCellWithBlock a i v =
     \<lparr>block = Some \<lparr>oid = a, bid = i, bvalue = v, isNew = False\<rparr>, mergedBlock = None\<rparr>"

definition gridEmpty :: Grid where
  "gridEmpty = \<lparr>gsize = 2, rows = [[makeEmptyCell, makeEmptyCell], [makeEmptyCell, makeEmptyCell]]\<rparr>"

definition gridWon :: Grid where
  "gridWon = \<lparr>gsize = 2, rows =
     [[makeCellWithBlock 1 ''1'' 2, makeEmptyCell],
      [makeCellWithBlock 2 ''2'' 2048, makeCellWithBlock 3 ''3'' 4]]\<rparr>"

definition gridBeyond :: Grid where
  "gridBeyond = \<lparr>gsize = 1, rows = [[makeCellWithBlock 1 ''1'' 4096]]\<rparr>"

definition gridDiagonal :: Grid where
  "gridDiagonal = \<lparr>gsize = 2, rows =
     [[makeCellWithBlock 1 ''1'' 2, makeEmptyCell],
      [makeEmptyCell, makeCellWithBlock 2 ''2'' 4]]\<rparr>"

text \<open>Addresses for the objects built while the example grids are resolved.\<close>

definition exampleAlloc :: "nat \<Rightarrow> nat \<Rightarrow> addr" where
  "exampleAlloc line index = 100 + 10 * int line + int index"

section \<open>The pairing scan in scan order\<close>

text \<open>The blocks of a line in the order in which \<^verbatim>\<open>findBlockPairs\<close> meets them: from the
  destination edge on, which is the high-index end for direction 1.\<close>

definition scanOrder :: "int \<Rightarrow> Block list \<Rightarrow> Block list" where
  "scanOrder direction bs = (if direction = 1 then rev bs else bs)"

text \<open>The array \<^verbatim>\<open>findBlockPairs\<close> builds for a group of the scan: a pair is
  \<^verbatim>\<open>[lastBlock, block]\<close> for direction 1 and \<^verbatim>\<open>[block, lastBlock]\<close> otherwise, where
  \<^verbatim>\<open>lastBlock\<close> is the member met first.\<close>

fun groupArray :: "int \<Rightarrow> Block \<times> Block option \<Rightarrow> Block list" where
  "groupArray direction (a, None) = [a]"
| "groupArray direction (a, Some b) = (if direction = 1 then [a, b] else [b, a])"

text \<open>One pass of the loop of \<^verbatim>\<open>findBlockPairs\<close>, read on the scan order: pass \<open>i\<close> looks at
  the block met at step \<open>i - 1\<close> (\<^verbatim>\<open>lastBlock\<close>) and the one met at step \<open>i\<close> (\<^verbatim>\<open>block\<close>).\<close>

definition scanStep ::
  "int \<Rightarrow> Block list \<Rightarrow> Block list list \<times> Block list \<Rightarrow> nat \<Rightarrow> Block list list \<times> Block list" where
  "scanStep direction ss st i =
     (case st of (bps, pairedBlocks) \<Rightarrow>
        (case elemAt ss (int i - 1) of
           None \<Rightarrow> (bps, pairedBlocks)
         | Some lastBlock \<Rightarrow>
             (if arrayIncludes pairedBlocks lastBlock then (bps, pairedBlocks)
              else
                (case elemAt ss (int i) of
                   Some b \<Rightarrow>
                     (if bvalue b = bvalue lastBlock
                      then (addToBlockPairs direction (groupArray direction (lastBlock, Some b)) bps,
                            pairedBlocks @ [b, lastBlock])
                      else (addToBlockPairs direction [lastBlock] bps, pairedBlocks))
                 | None \<Rightarrow> (addToBlockPairs direction [lastBlock] bps, pairedBlocks)))))"

text \<open>All the groups of a scan added to \<^verbatim>\<open>blockPairs\<close> in turn.\<close>

definition addAll :: "int \<Rightarrow> Block list list \<Rightarrow> Block list list \<Rightarrow> Block list list" where
  "addAll d bps gs = foldl (\<lambda>acc g. addToBlockPairs d g acc) bps gs"

text \<open>A block as the tests build it: the object at address \<open>a\<close>, not new.\<close>

definition testBlock :: "addr \<Rightarrow> string \<Rightarrow> int \<Rightarrow> Block" where
  "testBlock a i v = \<lparr>oid = a, bid = i, bvalue = v, isNew = False\<rparr>"

definition lineOfThree :: "Block list" where
  "lineOfThree = [testBlock 1 ''a'' 2, testBlock 2 ''b'' 2, testBlock 3 ''c'' 2]"

definition lineOfFour :: "Block list" where
  "lineOfFour = [testBlock 1 ''a'' 2, testBlock 2 ''b'' 2, testBlock 3 ''c'' 2, testBlock 4 ''d'' 2]"

text \<open>What a group built by the scan of \<open>ss\<close> is: one block, or the array of two
  neighbours of the scan order that have the same value.\<close>

definition validGroup :: "int \<Rightarrow> Block list \<Rightarrow> Block list \<Rightarrow> bool" where
  "validGroup direction ss g =
     ((\<exists>a. g = [a]) \<or>
      (\<exists>j. Suc j < length ss \<and> bvalue (ss ! j) = bvalue (ss ! Suc j) \<and>
           g = groupArray direction (ss ! j, Some (ss ! Suc j))))"

definition lineTwoTwo :: "Cell list" where
  "lineTwoTwo = [makeCellWithBlock 1 ''a'' 2, makeEmptyCell, makeCellWithBlock 2 ''b'' 2]"

text \<open>A full grid with no two equal neighbours, and a full grid whose only equal neighbours
  are in its first column.\<close>

definition gridStuck :: Grid where
  "gridStuck = \<lparr>gsize = 2, rows =
     [[makeCellWithBlock 1 ''1'' 2, makeCellWithBlock 2 ''2'' 4],
      [makeCellWithBlock 3 ''3'' 4, makeCellWithBlock 4 ''4'' 2]]\<rparr>"

definition gridColumnPair :: Grid where
  "gridColumnPair = \<lparr>gsize = 2, rows =
     [[makeCellWithBlock 1 ''1'' 2, makeCellWithBlock 2 ''2'' 4],
      [makeCellWithBlock 3 ''3'' 2, makeCellWithBlock 4 ''4'' 8]]\<rparr>"

section \<open>The game as a transition system\<close>

text \<open>
  How React and the animation layer drive the functions above. A dispatched action
  replaces the state by the result of the reducer. A key press is handled only while the
  key listener of the \<^verbatim>\<open>INPUT\<close> phase is installed. The effect of \<^verbatim>\<open>usePhaseSystem\<close> runs
  the handler of the current phase. In Box.tsx every box runs its update animation in the
  \<^verbatim>\<open>ACTIVE\<close> phase and only a new box runs its spawn animation in the \<^verbatim>\<open>SPAWN\<close> and \<^verbatim>\<open>INIT\<close>
  phases; each animation calls the completion callback once when it ends. Every event
  comes with the runtime values of its own.
\<close>

datatype Event =
    KeyDown Runtime string
  | Effect Runtime real
  | AnimationsComplete Runtime

definition animatedBoxes :: "Phase \<Rightarrow> (Block \<times> Vector \<times> bool) list \<Rightarrow> nat" where
  "animatedBoxes p boxes =
     (if p = ACTIVE then length boxes
      else if p = SPAWN \<or> p = INIT then length (filter (\<lambda>(b, position, isMerged). isNew b) boxes)
      else 0)"

text \<open>The state after an event; \<open>None\<close> when the event cannot happen in the state, changes
  nothing, or ends in an exception. For the animations it is the state after the last of
  the completion calls, which is the only one that dispatches.\<close>

definition eventStep :: "State \<Rightarrow> Event \<Rightarrow> State option" where
  "eventStep s ev =
     (case ev of
        KeyDown rt k \<Rightarrow>
          (if sphase s = INPUT
           then (case inputHandler k of
                   None \<Rightarrow> None
                 | Some a \<Rightarrow> (case reducer rt s a of Inl e \<Rightarrow> None | Inr s' \<Rightarrow> Some s'))
           else None)
      | Effect rt r \<Rightarrow>
          (case phaseHandler rt r s of
             Inr (Some a) \<Rightarrow> (case reducer rt s a of Inl e \<Rightarrow> None | Inr s' \<Rightarrow> Some s')
           | _ \<Rightarrow> None)
      | AnimationsComplete rt \<Rightarrow>
          (case useBoxViewData (sgrid s) of
             Inl e \<Rightarrow> None
           | Inr boxes \<Rightarrow>
               (case completions (int (length boxes)) (sphase s) (animatedBoxes (sphase s) boxes) 0 of
                  (current, outs) \<Rightarrow>
                    (if outs \<noteq> [] \<and> list_all (\<lambda>out. out = Inr None) (butlast outs)
                     then (case last outs of
                             Inr (Some a) \<Rightarrow>
                               (case reducer rt s a of Inl e \<Rightarrow> None | Inr s' \<Rightarrow> Some s')
                           | _ \<Rightarrow> None)
                     else None))))"

fun play :: "State \<Rightarrow> Event list \<Rightarrow> State option" where
  "play s [] = Some s"
| "play s (ev # evs) = (case eventStep s ev of None \<Rightarrow> None | Some s' \<Rightarrow> play s' evs)"

text \<open>Runtime values for the \<open>n\<close>-th event of an example: every random number is 0, and the
  addresses and the uuid are the event's own.\<close>

definition runtimeOf :: "nat \<Rightarrow> Runtime" where
  "runtimeOf n = \<lparr>randomX = 0, randomY = 0,
     newUuid = [CHR ''u'', char_of (48 + n div 10), char_of (48 + n mod 10)],
     newBlockAddr = 1000 * int n,
     mergeAddr = (\<lambda>line index. 1000 * int n + 10 * int line + int index + 10),
     clearAddr = (\<lambda>p. 1000 * int n + 100 + 10 * vy p + vx p)\<rparr>"

text \<open>One round of the game: a key, the animations of the move, the win test, the spawn,
  the animation of the spawn and the loss test. The events of the round are numbered from
  \<open>n\<close> on.\<close>

definition roundEvents :: "nat \<Rightarrow> string \<Rightarrow> Event list" where
  "roundEvents n k =
     [KeyDown (runtimeOf n) k, AnimationsComplete (runtimeOf (n + 1)), Effect (runtimeOf (n + 2)) 0,
      Effect (runtimeOf (n + 3)) 0, AnimationsComplete (runtimeOf (n + 4)), Effect (runtimeOf (n + 5)) 0]"

text \<open>A game on a 2 by 2 board: the first animation, then five rounds.\<close>

definition fillingEvents :: "Event list" where
  "fillingEvents =
     AnimationsComplete (runtimeOf 0) #
     roundEvents 10 ''ArrowRight'' @ roundEvents 20 ''ArrowDown'' @ roundEvents 30 ''ArrowRight'' @
     roundEvents 40 ''ArrowDown'' @ roundEvents 50 ''ArrowRight''"

text \<open>The sixth key and what follows it up to the \<^verbatim>\<open>SPAWN\<close> phase.\<close>

definition idleMoveEvents :: "Event list" where
  "idleMoveEvents = [AnimationsComplete (runtimeOf 61), Effect (runtimeOf 62) 0]"

text \<open>The board the five rounds end with: every cell full, equal neighbours in both columns
  and in no row.\<close>

definition gridReached :: Grid where
  "gridReached = \<lparr>gsize = 2, rows =
     [[makeCellWithBlock 54100 ''u53'' 2, makeCellWithBlock 51101 ''u43'' 4],
      [makeCellWithBlock 34100 ''u33'' 2, makeCellWithBlock 31111 ''u13'' 4]]\<rparr>"

section \<open>The store: objects that are shared and mutated\<close>

text \<open>
  The functions above pass grids as values, which is right as long as no object that is
  written is held by two grids. \<^verbatim>\<open>cloneGrid\<close> copies the arrays of a grid and not the cell
  objects, and \<^verbatim>\<open>setBlockAt\<close> writes a field of a cell object, so what the accessors do to
  shared objects is modelled here with an explicit store: a cell object and a row array
  live at an address, a row array holds the addresses of its cells, and a grid holds the
  addresses of its row arrays (in an outer array that \<^verbatim>\<open>cloneGrid\<close> builds anew and that
  none of these functions writes).

  A JavaScript array is a table from integer keys to elements together with its length:
  a read at a key with no entry gives \<^verbatim>\<open>undefined\<close>, a write at a key from the length on
  extends the array, and a write at a negative key adds a property and leaves the length.
\<close>

record 'a jsarray =
  alen :: nat
  aprops :: "int \<Rightarrow> 'a option"

definition arrayOf :: "'a list \<Rightarrow> 'a jsarray" where
  "arrayOf xs = \<lparr>alen = length xs, aprops = elemAt xs\<rparr>"

definition jsGet :: "'a jsarray \<Rightarrow> int \<Rightarrow> 'a option" where
  "jsGet a i = aprops a i"

definition jsSet :: "'a jsarray \<Rightarrow> int \<Rightarrow> 'a \<Rightarrow> 'a jsarray" where
  "jsSet a i v =
     \<lparr>alen = (if 0 \<le> i then max (alen a) (nat i + 1) else alen a),
      aprops = (aprops a)(i := Some v)\<rparr>"

text \<open>\<^verbatim>\<open>a.slice()\<close>: a new array with the elements at the indices below the length.\<close>

definition jsSlice :: "'a jsarray \<Rightarrow> 'a jsarray" where
  "jsSlice a =
     \<lparr>alen = alen a, aprops = (\<lambda>i. if 0 \<le> i \<and> i < int (alen a) then aprops a i else None)\<rparr>"

record Store =
  cellObjects :: "addr \<Rightarrow> Cell"
  rowArrays :: "addr \<Rightarrow> addr jsarray"
  nextAddr :: addr

record GridRef =
  rsize :: int
  rrows :: "addr list"

text \<open>\<^verbatim>\<open>grid.rows.map((row) => row.slice())\<close>: every copy is a new array at a fresh address.\<close>

fun cloneRows :: "addr list \<Rightarrow> Store \<Rightarrow> addr list \<times> Store" where
  "cloneRows [] s = ([], s)"
| "cloneRows (row # rest) s =
     (let a = nextAddr s;
          s' = s\<lparr>rowArrays := (rowArrays s)(a := jsSlice (rowArrays s row)), nextAddr := a + 1\<rparr>
      in (case cloneRows rest s' of (copies, s'') \<Rightarrow> (a # copies, s'')))"

definition cloneGrid_store :: "GridRef \<Rightarrow> Store \<Rightarrow> GridRef \<times> Store" where
  "cloneGrid_store g s =
     (case cloneRows (rrows g) s of (copies, s') \<Rightarrow> (\<lparr>rsize = rsize g, rrows = copies\<rparr>, s'))"

text \<open>\<^verbatim>\<open>getCellAt\<close> returns a reference to the cell object, or \<^verbatim>\<open>undefined\<close>.\<close>

definition getCellAt_store :: "Vector \<Rightarrow> GridRef \<Rightarrow> Store \<Rightarrow> error + addr option" where
  "getCellAt_store position g s =
     (case elemAt (rrows g) (vy position) of
        None \<Rightarrow> Inl TypeError
      | Some row \<Rightarrow> Inr (jsGet (rowArrays s row) (vx position)))"

definition setCellAt_store :: "Vector \<Rightarrow> addr \<Rightarrow> GridRef \<Rightarrow> Store \<Rightarrow> error + Store" where
  "setCellAt_store position cell g s =
     (case elemAt (rrows g) (vy position) of
        None \<Rightarrow> Inl TypeError
      | Some row \<Rightarrow>
          Inr (s\<lparr>rowArrays := (rowArrays s)(row := jsSet (rowArrays s row) (vx position) cell)\<rparr>))"

definition setBlockAt_store :: "Vector \<Rightarrow> Block option \<Rightarrow> GridRef \<Rightarrow> Store \<Rightarrow> error + Store" where
  "setBlockAt_store position b g s =
     (case elemAt (rrows g) (vy position) of
        None \<Rightarrow> Inl TypeError
      | Some row \<Rightarrow>
          (case jsGet (rowArrays s row) (vx position) of
             None \<Rightarrow> Inl TypeError
           | Some cell \<Rightarrow>
               Inr (s\<lparr>cellObjects := (cellObjects s)(cell := (cellObjects s cell)\<lparr>block := b\<rparr>)\<rparr>)))"

text \<open>The \<^verbatim>\<open>ADD_NEW_BLOCK\<close> case of the reducer: the grid of the next state and the store.\<close>

definition addNewBlock_store ::
  "Vector option \<Rightarrow> Block \<Rightarrow> GridRef \<Rightarrow> Store \<Rightarrow> error + GridRef \<times> Store" where
  "addNewBlock_store position b g s =
     (case cloneGrid_store g s of
        (nextGrid, s1) \<Rightarrow>
          (case position of
             None \<Rightarrow> Inl TypeError
           | Some p \<Rightarrow>
               (case setBlockAt_store p (Some b) nextGrid s1 of
                  Inl e \<Rightarrow> Inl e
                | Inr s2 \<Rightarrow> Inr (nextGrid, s2))))"

text \<open>A grid of the store as the program builds it: \<open>rsize\<close> row arrays, allocated and
  different from each other, each with \<open>rsize\<close> cells at the indices and nothing else.\<close>

definition wellFormed_store :: "GridRef \<Rightarrow> Store \<Rightarrow> bool" where
  "wellFormed_store g s =
     (0 \<le> rsize g \<and> length (rrows g) = nat (rsize g) \<and> distinct (rrows g) \<and>
      (\<forall>row \<in> set (rrows g).
         row < nextAddr s \<and> alen (rowArrays s row) = nat (rsize g) \<and>
         (\<forall>i. (0 \<le> i \<and> i < rsize g) = (aprops (rowArrays s row) i \<noteq> None))))"

text \<open>A 2 by 2 grid in a store: the cell objects at the addresses 1 to 4, the row arrays at
  11 and 12.\<close>

definition exampleStore :: Store where
  "exampleStore =
     \<lparr>cellObjects = (\<lambda>a. if a = 1 then makeCellWithBlock 101 ''1'' 2
                          else if a = 4 then makeCellWithBlock 104 ''4'' 4 else makeEmptyCell),
      rowArrays = (\<lambda>a. if a = 11 then arrayOf [1, 2] else if a = 12 then arrayOf [3, 4] else arrayOf []),
      nextAddr = 20\<rparr>"

definition exampleGridRef :: GridRef where
  "exampleGridRef = \<lparr>rsize = 2, rrows = [11, 12]\<rparr>"

text \<open>A full 3 by 3 board on which no two neighbours are equal, though every row and every
  column holds the same value twice.\<close>

definition gridStuckThree :: Grid where
  "gridStuckThree = \<lparr>gsize = 3, rows =
     [[makeCellWithBlock 1 ''1'' 2, makeCellWithBlock 2 ''2'' 4, makeCellWithBlock 3 ''3'' 2],
      [makeCellWithBlock 4 ''4'' 4, makeCellWithBlock 5 ''5'' 8, makeCellWithBlock 6 ''6'' 4],
      [makeCellWithBlock 7 ''7'' 2, makeCellWithBlock 8 ''8'' 4, makeCellWithBlock 9 ''9'' 2]]\<rparr>"

definition lineMixed :: "Block list" where
  "lineMixed = [testBlock 4 ''d'' 4, testBlock 1 ''a'' 2, testBlock 2 ''b'' 2, testBlock 3 ''c'' 2]"

chapter \<open>Properties\<close>

section \<open>Reading a well-formed grid\<close>

lemma elemAt_nth: "0 \<le> i \<Longrightarrow> i < int (length xs) \<Longrightarrow> elemAt xs i = Some (xs ! nat i)"
  by (simp add: elemAt_def)

lemma elemAt_int: "elemAt xs (int i) = (if i < length xs then Some (xs ! i) else None)"
  by (simp add: elemAt_def)

lemma elemAt_None: "i < 0 \<or> int (length xs) \<le> i \<Longrightarrow> elemAt xs i = None"
  by (auto simp add: elemAt_def)

lemma set_upTo: "set (upTo n) = {i. 0 \<le> i \<and> i < n}"
proof -
  have "\<And>x. 0 \<le> x \<Longrightarrow> x < n \<Longrightarrow> x \<in> int ` {0..<nat n}"
  proof -
    fix x :: int assume "0 \<le> x" "x < n"
    then have "nat x \<in> {0..<nat n}" "x = int (nat x)" by auto
    then show "x \<in> int ` {0..<nat n}" by (rule_tac x="nat x" in image_eqI) auto
  qed
  then show ?thesis by (auto simp add: upTo_def)
qed

lemma set_cellPositions:
  "p \<in> set (cellPositions n) \<longleftrightarrow> 0 \<le> vx p \<and> vx p < n \<and> 0 \<le> vy p \<and> vy p < n"
  by (cases p) (auto simp add: cellPositions_def set_upTo)

lemma getCellAt_wf:
  assumes "wellFormed g" "0 \<le> vx p" "vx p < gsize g" "0 \<le> vy p" "vy p < gsize g"
  shows "getCellAt p g = Inr (Some (cellOf g p))"
proof -
  have r: "elemAt (rows g) (vy p) = Some (rows g ! nat (vy p))"
    using assms by (intro elemAt_nth) (auto simp add: wellFormed_def)
  have "rows g ! nat (vy p) \<in> set (rows g)"
    using assms by (intro nth_mem) (auto simp add: wellFormed_def)
  then have "length (rows g ! nat (vy p)) = nat (gsize g)"
    using assms by (auto simp add: wellFormed_def)
  then have c: "elemAt (rows g ! nat (vy p)) (vx p) = Some (rows g ! nat (vy p) ! nat (vx p))"
    using assms by (intro elemAt_nth) auto
  show ?thesis by (simp add: getCellAt_def r c cellOf_def)
qed

lemma iterateFrom_reader:
  assumes "\<forall>p\<in>set ps. getCellAt p g = Inr (Some (cellOf g p))"
  shows "iterateFrom (\<lambda>cell position g' s. case cell of None \<Rightarrow> Inl TypeError
                        | Some c \<Rightarrow> Inr (True, g', f c position s)) ps g s
         = Inr (g, foldl (\<lambda>s p. f (cellOf g p) p s) s ps)"
  using assms by (induction ps arbitrary: s) auto

lemma iterateCells_reader:
  assumes "wellFormed g"
  shows "iterateCells g (\<lambda>cell position g' s. case cell of None \<Rightarrow> Inl TypeError
                        | Some c \<Rightarrow> Inr (True, g', f c position s)) s
         = Inr (g, foldl (\<lambda>s p. f (cellOf g p) p s) s (cellPositions (gsize g)))"
  unfolding iterateCells_def
  by (rule iterateFrom_reader) (auto simp add: set_cellPositions getCellAt_wf [OF assms])

lemma foldl_filter_append:
  "foldl (\<lambda>res p. if P p then res @ [p] else res) acc ps = acc @ filter P ps"
  by (induction ps arbitrary: acc) auto

lemma findEmptyCellPositions_wf:
  assumes "wellFormed g"
  shows "findEmptyCellPositions g = Inr (filter (\<lambda>p. block (cellOf g p) = None) (cellPositions (gsize g)))"
  unfolding findEmptyCellPositions_def
  by (simp add: iterateCells_reader [OF assms, where f = "\<lambda>c position result. if block c = None then result @ [position] else result"]
      foldl_filter_append)

section \<open>C7: hasWon\<close>

lemma foldl_max:
  "foldl (\<lambda>m p. max m (v p)) (m::int) ps = Max (insert m (v ` set ps))"
proof (induction ps arbitrary: m)
  case Nil
  then show ?case by simp
next
  case (Cons p ps)
  have "Max (insert (max m (v p)) (v ` set ps)) = Max (insert m (insert (v p) (v ` set ps)))"
    by (cases "set ps = {}") (simp_all add: max.assoc)
  then show ?case by (simp add: Cons)
qed

lemma cells_visited:
  assumes "wellFormed g"
  shows "cellOf g ` set (cellPositions (gsize g)) = set (gridCells g)"
proof -
  let ?n = "nat (gsize g)"
  have len: "length (rows g) = ?n" and rl: "\<And>r. r \<in> set (rows g) \<Longrightarrow> length r = ?n"
    using assms by (auto simp add: wellFormed_def)
  show ?thesis
  proof (intro set_eqI iffI)
    fix c assume "c \<in> cellOf g ` set (cellPositions (gsize g))"
    then obtain p where p: "0 \<le> vx p" "vx p < gsize g" "0 \<le> vy p" "vy p < gsize g" "c = cellOf g p"
      by (auto simp add: set_cellPositions)
    have r: "rows g ! nat (vy p) \<in> set (rows g)" using p len by (intro nth_mem) auto
    then have "length (rows g ! nat (vy p)) = ?n" by (rule rl)
    then have "rows g ! nat (vy p) ! nat (vx p) \<in> set (rows g ! nat (vy p))"
      using p by (intro nth_mem) auto
    with r show "c \<in> set (gridCells g)" by (auto simp add: gridCells_def p cellOf_def)
  next
    fix c assume "c \<in> set (gridCells g)"
    then obtain r where r: "r \<in> set (rows g)" "c \<in> set r" by (auto simp add: gridCells_def)
    then obtain y where y: "y < length (rows g)" "r = rows g ! y" by (auto simp add: in_set_conv_nth)
    from r obtain x where x: "x < length r" "c = r ! x" by (auto simp add: in_set_conv_nth)
    let ?p = "\<lparr>vx = int x, vy = int y\<rparr>"
    have "?p \<in> set (cellPositions (gsize g))"
      using x y rl [OF r(1)] len by (auto simp add: set_cellPositions)
    moreover have "cellOf g ?p = c" using x y by (simp add: cellOf_def)
    ultimately show "c \<in> cellOf g ` set (cellPositions (gsize g))" by blast
  qed
qed

lemma hasWon_Max:
  assumes "wellFormed g"
  shows "hasWon g = Inr (Max (insert 0 (blockValue ` set (gridCells g))) = 2048)"
proof -
  have "hasWon g = Inr (foldl (\<lambda>m p. max m (blockValue (cellOf g p))) 0 (cellPositions (gsize g)) = 2048)"
    unfolding hasWon_def blockValue_def
    by (simp add: iterateCells_reader [OF assms, where f = "\<lambda>c position m. max m (case block c of None \<Rightarrow> 0 | Some b \<Rightarrow> bvalue b)"])
  also have "foldl (\<lambda>m p. max m (blockValue (cellOf g p))) 0 (cellPositions (gsize g))
     = Max (insert 0 ((\<lambda>p. blockValue (cellOf g p)) ` set (cellPositions (gsize g))))"
    by (rule foldl_max)
  also have "(\<lambda>p. blockValue (cellOf g p)) ` set (cellPositions (gsize g)) = blockValue ` set (gridCells g)"
    using cells_visited [OF assms] by (metis image_image)
  finally show ?thesis .
qed

text \<open>
  C7. \<^verbatim>\<open>hasWon\<close> compares the largest block value of the grid with 2048 by \<^verbatim>\<open>===\<close>: on a
  well-formed grid it returns true if and only if some cell holds a block of value 2048 and
  no cell holds a block of a greater value.
\<close>

theorem hasWon_iff:
  assumes "wellFormed g"
  shows "hasWon g = Inr ((\<exists>c \<in> set (gridCells g). \<exists>b. block c = Some b \<and> bvalue b = 2048)
                        \<and> (\<forall>c \<in> set (gridCells g). \<forall>b. block c = Some b \<longrightarrow> bvalue b \<le> 2048))"
proof -
  let ?S = "insert 0 (blockValue ` set (gridCells g))"
  have fin: "finite ?S" "?S \<noteq> {}" by auto
  have "(Max ?S = 2048) \<longleftrightarrow> (2048 \<in> ?S \<and> (\<forall>v \<in> ?S. v \<le> 2048))"
    using Max_eq_iff [OF fin] by auto
  also have "\<dots> \<longleftrightarrow> ((\<exists>c \<in> set (gridCells g). blockValue c = 2048)
                        \<and> (\<forall>c \<in> set (gridCells g). blockValue c \<le> 2048))"
    by auto
  also have "\<dots> \<longleftrightarrow> ((\<exists>c \<in> set (gridCells g). \<exists>b. block c = Some b \<and> bvalue b = 2048)
                        \<and> (\<forall>c \<in> set (gridCells g). \<forall>b. block c = Some b \<longrightarrow> bvalue b \<le> 2048))"
  proof -
    have b: "\<And>c. blockValue c = 2048 \<longleftrightarrow> (\<exists>b. block c = Some b \<and> bvalue b = 2048)"
      by (auto simp add: blockValue_def split: option.splits)
    have d: "\<And>c. blockValue c \<le> 2048 \<longleftrightarrow> (\<forall>b. block c = Some b \<longrightarrow> bvalue b \<le> 2048)"
      by (auto simp add: blockValue_def split: option.splits)
    show ?thesis by (simp only: b d)
  qed
  finally show ?thesis by (simp add: hasWon_Max [OF assms])
qed


theorem hasWon_iff_witness:
  "wellFormed gridWon \<and> hasWon gridWon = Inr True"
proof -
  have wf: "wellFormed gridWon"
    by (simp add: wellFormed_def gridWon_def)
  have "(\<exists>c \<in> set (gridCells gridWon). \<exists>b. block c = Some b \<and> bvalue b = 2048)
        \<and> (\<forall>c \<in> set (gridCells gridWon). \<forall>b. block c = Some b \<longrightarrow> bvalue b \<le> 2048)"
    by (simp add: gridCells_def gridWon_def makeCellWithBlock_def makeEmptyCell_def)
  with hasWon_iff [OF wf] wf show ?thesis by simp
qed

text \<open>The claim as stated (a block value of at least 2048 wins) fails on a grid whose only
  block has the value 4096: \<^verbatim>\<open>hasWon\<close> is false there.\<close>

theorem hasWon_counterexample:
  "\<not> (hasWon gridBeyond = Inr True \<longleftrightarrow>
        (\<exists>c \<in> set (gridCells gridBeyond). \<exists>b. block c = Some b \<and> bvalue b \<ge> 2048))"
proof -
  have "hasWon gridBeyond = Inr False"
    by code_simp
  moreover have "\<exists>c \<in> set (gridCells gridBeyond). \<exists>b. block c = Some b \<and> bvalue b \<ge> 2048"
    by (simp add: gridCells_def gridBeyond_def makeCellWithBlock_def)
  ultimately show ?thesis by simp
qed

section \<open>C9: the order of iterateCells\<close>

lemma cellPositions_2:
  "cellPositions 2 = [\<lparr>vx = 0, vy = 0\<rparr>, \<lparr>vx = 0, vy = 1\<rparr>, \<lparr>vx = 1, vy = 0\<rparr>, \<lparr>vx = 1, vy = 1\<rparr>]"
  by (simp add: cellPositions_def upTo_def upt_rec)

text \<open>
  C9. \<^verbatim>\<open>iterateCells\<close> runs \<^verbatim>\<open>x\<close> in the outer loop and \<^verbatim>\<open>y\<close> in the inner one, so the
  cells are visited column by column, and \<^verbatim>\<open>findEmptyCellPositions\<close> lists the empty
  positions ordered by \<^verbatim>\<open>x\<close> first, then \<^verbatim>\<open>y\<close>: on the empty 2 by 2 grid the position
  \<open>(x = 0, y = 1)\<close> comes before \<open>(x = 1, y = 0)\<close>, which a row-major order puts after it.
\<close>

theorem findEmptyCellPositions_column_major:
  "makeEmptyGrid 2 = Inr gridEmpty
   \<and> findEmptyCellPositions gridEmpty
       = Inr [\<lparr>vx = 0, vy = 0\<rparr>, \<lparr>vx = 0, vy = 1\<rparr>, \<lparr>vx = 1, vy = 0\<rparr>, \<lparr>vx = 1, vy = 1\<rparr>]"
  by (simp add: findEmptyCellPositions_def iterateCells_def cellPositions_2 makeEmptyGrid_def
        gridEmpty_def upTo_def upt_rec getCellAt_def elemAt_def makeEmptyCell_def)

section \<open>C4: the animation-completion aggregator\<close>

lemma completions_below:
  assumes "0 \<le> c" "c + int m < totalCompleteCount boxCount p"
  shows "completions boxCount p m c = (c + int m, replicate m (Inr None))"
  using assms
proof (induction m arbitrary: c)
  case 0
  then show ?case by simp
next
  case (Suc m)
  have "animationComplete boxCount p c = (c + 1, Inr None)"
    using Suc.prems by (simp add: animationComplete_def Let_def)
  moreover have "completions boxCount p m (c + 1) = (c + 1 + int m, replicate m (Inr None))"
    using Suc.prems by (intro Suc.IH) auto
  ultimately show ?case by simp
qed

text \<open>
  C4. For a callback whose phase expects completions (\<^verbatim>\<open>nextPhaseMap\<close> has an entry for it)
  and whose expected count \<open>k\<close> is at least 1, with the counter at 0: the first \<open>k - 1\<close>
  signals dispatch nothing and leave the counter at \<open>k - 1\<close>; the \<open>k\<close>-th signal resets the
  counter to 0 and dispatches one \<^verbatim>\<open>CLEAR_TRANSIENT_STATE\<close>; and when \<open>k\<close> is at least 2, a
  further signal after the reset dispatches nothing.
\<close>

theorem aggregator_round:
  assumes k: "k = totalCompleteCount boxCount p" and pos: "1 \<le> k"
      and np: "nextPhaseMap p = Some nextPhase"
  shows "completions boxCount p (nat (k - 1)) 0 = (k - 1, replicate (nat (k - 1)) (Inr None))
       \<and> animationComplete boxCount p (k - 1) = (0, Inr (Some (CLEAR_TRANSIENT_STATE nextPhase)))
       \<and> (2 \<le> k \<longrightarrow> animationComplete boxCount p 0 = (1, Inr None))"
proof -
  have "completions boxCount p (nat (k - 1)) 0 = (0 + int (nat (k - 1)), replicate (nat (k - 1)) (Inr None))"
    using k pos by (intro completions_below) auto
  then have a: "completions boxCount p (nat (k - 1)) 0 = (k - 1, replicate (nat (k - 1)) (Inr None))"
    using pos by simp
  have b: "animationComplete boxCount p (k - 1) = (0, Inr (Some (CLEAR_TRANSIENT_STATE nextPhase)))"
    using k np by (simp add: animationComplete_def)
  have c: "2 \<le> k \<longrightarrow> animationComplete boxCount p 0 = (1, Inr None)"
    using k by (simp add: animationComplete_def)
  from a b c show ?thesis by blast
qed

theorem aggregator_round_witness:
  "completions 3 ACTIVE 2 0 = (2, [Inr None, Inr None])
   \<and> animationComplete 3 ACTIVE 2 = (0, Inr (Some (CLEAR_TRANSIENT_STATE TEST_WON)))
   \<and> animationComplete 3 ACTIVE 0 = (1, Inr None)"
proof -
  have k: "(3::int) = totalCompleteCount 3 ACTIVE" by (simp add: totalCompleteCount_def)
  have np: "nextPhaseMap ACTIVE = Some TEST_WON" by (simp add: nextPhaseMap_def)
  have r: "replicate 2 (Inr None :: error + Action option) = [Inr None, Inr None]"
    by (simp add: numeral_2_eq_2)
  have "completions 3 ACTIVE 2 0 = (2, replicate 2 (Inr None))
     \<and> animationComplete 3 ACTIVE 2 = (0, Inr (Some (CLEAR_TRANSIENT_STATE TEST_WON)))
     \<and> animationComplete 3 ACTIVE 0 = (1, Inr None)"
    using aggregator_round [OF k _ np] by simp
  then show ?thesis by (simp only: r)
qed

text \<open>With an expected count of 1 (any phase but \<^verbatim>\<open>ACTIVE\<close>) the signal after the reset
  reaches the count again: the second of two signals dispatches a second advance.\<close>

theorem aggregator_counterexample:
  "totalCompleteCount 1 SPAWN = 1
   \<and> completions 1 SPAWN 2 0
       = (0, [Inr (Some (CLEAR_TRANSIENT_STATE TEST_GAME_OVER)), Inr (Some (CLEAR_TRANSIENT_STATE TEST_GAME_OVER))])"
  by (simp add: totalCompleteCount_def animationComplete_def nextPhaseMap_def numeral_2_eq_2)

section \<open>C5: the invalid-direction fault\<close>

lemma collect_error: "collect rs = Inl e \<Longrightarrow> Inl e \<in> set rs"
  by (induction rs) (auto split: sum.splits)

lemma definedCells_error: "definedCells cs = Inl e \<Longrightarrow> e = TypeError"
  unfolding definedCells_def by (drule collect_error) (auto split: option.splits)

lemma resolveCell_error: "resolveCell d a bps len i c = Inl e \<Longrightarrow> e = TypeError"
  by (auto simp add: resolveCell_def Let_def split: option.splits if_splits list.splits)

lemma resolveColumnOrRowInDirection_error:
  "resolveColumnOrRowInDirection d alloc cells = Inl e \<Longrightarrow> e = TypeError"
  unfolding resolveColumnOrRowInDirection_def Let_def
  by (auto split: if_splits dest!: collect_error resolveCell_error [OF sym])

lemma arrayAssign_error: "arrayAssign xs i v = Inl e \<Longrightarrow> e = OutsideListModel"
  by (auto simp add: arrayAssign_def split: if_splits)

lemma setCellAt_error: "setCellAt p c g = Inl e \<Longrightarrow> e = TypeError \<or> e = OutsideListModel"
  by (auto simp add: setCellAt_def split: option.splits sum.splits dest: arrayAssign_error)

lemma setColumnFrom_error: "setColumnFrom x ycs g = Inl e \<Longrightarrow> e = TypeError \<or> e = OutsideListModel"
  by (induction x ycs g rule: setColumnFrom.induct) (auto split: sum.splits dest: setCellAt_error)

lemma setRowAt_error: "setRowAt y r g = Inl e \<Longrightarrow> e = OutsideListModel"
  by (auto simp add: setRowAt_def split: sum.splits dest: arrayAssign_error)

lemma resolveColumns_error:
  "resolveColumns dy alloc xs g = Inl e \<Longrightarrow> e \<noteq> DirectionError"
proof (induction dy alloc xs g rule: resolveColumns.induct)
  case (1 dy alloc nextGrid)
  then show ?case by simp
next
  case (2 dy alloc x xs nextGrid)
  then show ?case
    by (auto simp add: setColumnAt_def split: sum.splits
        dest: definedCells_error resolveColumnOrRowInDirection_error setColumnFrom_error)
qed

lemma resolveRows_error:
  "resolveRows dx alloc ys g = Inl e \<Longrightarrow> e \<noteq> DirectionError"
proof (induction dx alloc ys g rule: resolveRows.induct)
  case (1 dx alloc nextGrid)
  then show ?case by simp
next
  case (2 dx alloc y ys nextGrid)
  then show ?case
    by (auto split: sum.splits option.splits
        dest: resolveColumnOrRowInDirection_error setRowAt_error)
qed

text \<open>
  C5. \<^verbatim>\<open>resolveCellsInDirection\<close> throws its invalid-direction error exactly for the
  directions whose two components are both nonzero. A direction with both components zero
  takes the branch \<^verbatim>\<open>direction.x === 0\<close> and is resolved as a move along the columns with
  sign 0.
\<close>

theorem invalid_direction_iff:
  "resolveCellsInDirection d alloc g = Inl DirectionError \<longleftrightarrow> (vx d \<noteq> 0 \<and> vy d \<noteq> 0)"
  by (auto simp add: resolveCellsInDirection_def Let_def
      dest: resolveColumns_error resolveRows_error)


text \<open>The direction \<open>(0, 0)\<close> is not rejected: every column is resolved with sign 0, which
  pairs every block with itself.\<close>

theorem zero_direction_counterexample:
  "resolveCellsInDirection \<lparr>vx = 0, vy = 0\<rparr> exampleAlloc gridDiagonal
     = Inr \<lparr>gsize = 2, rows =
         [[\<lparr>block = Some \<lparr>oid = 100, bid = ''1'', bvalue = 4, isNew = False\<rparr>,
            mergedBlock = Some \<lparr>oid = 1, bid = ''1'', bvalue = 2, isNew = False\<rparr>\<rparr>,
           \<lparr>block = Some \<lparr>oid = 110, bid = ''2'', bvalue = 8, isNew = False\<rparr>,
            mergedBlock = Some \<lparr>oid = 2, bid = ''2'', bvalue = 4, isNew = False\<rparr>\<rparr>],
          [makeEmptyCell, makeEmptyCell]]\<rparr>"
  by code_simp

section \<open>The pairing scan of findBlockPairs\<close>

lemma blockAt_Some: "blockAt (map Some bs) i = elemAt bs i"
proof (cases "0 \<le> i \<and> i < int (length bs)")
  case True
  then have "nat i < length bs" by auto
  with True show ?thesis by (simp add: blockAt_def elemAt_def)
next
  case False
  then show ?thesis by (auto simp add: blockAt_def elemAt_def)
qed

lemma elemAt_rev_cur:
  assumes "i \<le> length bs"
  shows "elemAt bs (int (length bs) - int i - 1) = elemAt (rev bs) (int i)"
proof (cases "i < length bs")
  case True
  then have "nat (int (length bs) - int i - 1) = length bs - Suc i" by simp
  with True show ?thesis by (simp add: elemAt_def rev_nth)
next
  case False
  with assms show ?thesis by (simp add: elemAt_def)
qed

lemma elemAt_rev_last:
  assumes "i \<le> length bs"
  shows "elemAt bs (int (length bs) - int i - 1 + 1) = elemAt (rev bs) (int i - 1)"
proof (cases i)
  case 0
  then show ?thesis by (simp add: elemAt_def)
next
  case (Suc j)
  with assms have j: "j < length bs" by simp
  have "nat (int (length bs) - int (Suc j) - 1 + 1) = length bs - Suc j" by simp
  with j Suc show ?thesis by (simp add: elemAt_def rev_nth)
qed

lemma step_scan:
  assumes "direction = 1 \<or> direction = -1" "i \<le> length bs"
  shows "findBlockPairsStep direction (map Some bs) st i = scanStep direction (scanOrder direction bs) st i"
proof (cases st)
  case (Pair bps paired)
  from assms(1) show ?thesis
  proof
    assume d: "direction = 1"
    show ?thesis
      using elemAt_rev_cur [OF assms(2)] elemAt_rev_last [OF assms(2)]
      by (simp add: d Pair findBlockPairsStep_def scanStep_def scanOrder_def blockAt_Some Let_def
          split: option.splits)
  next
    assume d: "direction = -1"
    show ?thesis
      by (simp add: d Pair findBlockPairsStep_def scanStep_def scanOrder_def blockAt_Some Let_def
          split: option.splits)
  qed
qed

lemma foldl_cong_list:
  "(\<And>s i. i \<in> set is \<Longrightarrow> f s i = g s i) \<Longrightarrow> foldl f s is = foldl g s is"
  by (induction "is" arbitrary: s) auto

lemma findBlockPairs_scan:
  assumes "direction = 1 \<or> direction = -1"
  shows "findBlockPairs direction (map Some bs) =
     (case foldl (scanStep direction (scanOrder direction bs)) ([], []) [0..<Suc (length bs)] of
        (bps, pairedBlocks) \<Rightarrow> \<lparr>hasBlockPairs = (pairedBlocks \<noteq> []), blockPairs = bps\<rparr>)"
proof -
  have "foldl (findBlockPairsStep direction (map Some bs)) ([], []) [0..<Suc (length bs)]
      = foldl (scanStep direction (scanOrder direction bs)) ([], []) [0..<Suc (length bs)]"
    by (rule foldl_cong_list) (auto intro: step_scan [OF assms])
  then show ?thesis by (simp add: findBlockPairs_def)
qed


lemma addAll_simps:
  "addAll d bps [] = bps"
  "addAll d bps (g # gs) = addAll d (addToBlockPairs d g bps) gs"
  by (simp_all add: addAll_def)

lemma addAll_eq: "addAll d bps gs = (if d = 1 then rev gs @ bps else bps @ gs)"
  by (induction gs arbitrary: bps) (auto simp add: addAll_simps addToBlockPairs_def)

lemma elemAt_append_hd: "elemAt (pre @ a # rest) (int (length pre)) = Some a"
  by (simp add: elemAt_int)

lemma elemAt_append_snd: "elemAt (pre @ a # b # rest) (int (Suc (length pre))) = Some b"
  by (subst elemAt_int) (simp add: nth_append)

lemma elemAt_append_end: "elemAt (pre @ [a]) (int (Suc (length pre))) = None"
  by (subst elemAt_int) simp

lemma not_included:
  assumes "oid ` set paired \<subseteq> oid ` set pre" "oid a \<notin> oid ` set pre"
  shows "\<not> arrayIncludes paired a"
  using assms by (auto simp add: arrayIncludes_def)

lemma scan_tail:
  assumes "distinct (map oid (pre @ rest))" "oid ` set paired \<subseteq> oid ` set pre"
  shows "fst (foldl (scanStep d (pre @ rest)) (bps, paired) [Suc (length pre)..<Suc (length (pre @ rest))])
         = addAll d bps (map (groupArray d) (scanGroups rest))"
  using assms
proof (induction rest arbitrary: pre bps paired rule: scanGroups.induct)
  case 1
  then show ?case by (simp add: addAll_simps)
next
  case (2 a)
  have na: "\<not> arrayIncludes paired a"
    using 2 by (intro not_included [of paired pre]) auto
  have r: "[Suc (length pre)..<Suc (length (pre @ [a]))] = [Suc (length pre)]"
    by (simp add: upt_rec)
  have "scanStep d (pre @ [a]) (bps, paired) (Suc (length pre)) = (addToBlockPairs d [a] bps, paired)"
    using na elemAt_append_hd [of pre a "[]"] elemAt_append_end [of pre a]
    by (simp add: scanStep_def)
  then show ?case by (simp add: r addAll_simps)
next
  case (3 a b rest)
  let ?ss = "pre @ a # b # rest"
  let ?k = "Suc (length pre)"
  have na: "\<not> arrayIncludes paired a"
    using 3(3,4) by (intro not_included [of paired pre]) auto
  have r: "[?k..<Suc (length ?ss)] = ?k # [Suc ?k..<Suc (length ?ss)]"
    by (simp add: upt_rec)
  have la: "elemAt ?ss (int ?k - 1) = Some a"
    using elemAt_append_hd [of pre a "b # rest"] by simp
  have lb: "elemAt ?ss (int ?k) = Some b"
    by (rule elemAt_append_snd)
  show ?case
  proof (cases "bvalue a = bvalue b")
    case True
    let ?paired = "paired @ [b, a]"
    let ?bps = "addToBlockPairs d (groupArray d (a, Some b)) bps"
    have s1: "scanStep d ?ss (bps, paired) ?k = (?bps, ?paired)"
      using na la lb True by (simp add: scanStep_def)
    have r2: "[Suc ?k..<Suc (length ?ss)] = Suc ?k # [Suc (Suc ?k)..<Suc (length ?ss)]"
      by (simp add: upt_rec)
    have lb2: "elemAt ?ss (int (Suc ?k) - 1) = Some b"
      using lb by simp
    have s2: "scanStep d ?ss (?bps, ?paired) (Suc ?k) = (?bps, ?paired)"
      using lb2 by (simp add: scanStep_def arrayIncludes_def)
    have d': "distinct (map oid ((pre @ [a, b]) @ rest))" using 3(3) by simp
    have p': "oid ` set ?paired \<subseteq> oid ` set (pre @ [a, b])" using 3(4) by auto
    have ih: "fst (foldl (scanStep d ((pre @ [a, b]) @ rest)) (?bps, ?paired)
                [Suc (length (pre @ [a, b]))..<Suc (length ((pre @ [a, b]) @ rest))])
              = addAll d ?bps (map (groupArray d) (scanGroups rest))"
      by (rule "3.IH"(1) [OF True d' p'])
    have "fst (foldl (scanStep d ?ss) (bps, paired) [?k..<Suc (length ?ss)])
        = fst (foldl (scanStep d ?ss) (?bps, ?paired) [Suc (Suc ?k)..<Suc (length ?ss)])"
      by (subst r, subst r2) (simp only: foldl_Cons s1 s2)
    also have "\<dots> = addAll d ?bps (map (groupArray d) (scanGroups rest))"
      using ih by simp
    finally show ?thesis using True by (simp add: addAll_simps)
  next
    case False
    let ?bps = "addToBlockPairs d [a] bps"
    have s1: "scanStep d ?ss (bps, paired) ?k = (?bps, paired)"
      using na la lb False by (simp add: scanStep_def)
    have d': "distinct (map oid ((pre @ [a]) @ b # rest))" using 3(3) by simp
    have p': "oid ` set paired \<subseteq> oid ` set (pre @ [a])" using 3(4) by auto
    have ih: "fst (foldl (scanStep d ((pre @ [a]) @ b # rest)) (?bps, paired)
                [Suc (length (pre @ [a]))..<Suc (length ((pre @ [a]) @ b # rest))])
              = addAll d ?bps (map (groupArray d) (scanGroups (b # rest)))"
      by (rule "3.IH"(2) [OF False d' p'])
    have "fst (foldl (scanStep d ?ss) (bps, paired) [?k..<Suc (length ?ss)])
        = fst (foldl (scanStep d ?ss) (?bps, paired) [Suc ?k..<Suc (length ?ss)])"
      by (subst r) (simp only: foldl_Cons s1)
    also have "\<dots> = addAll d ?bps (map (groupArray d) (scanGroups (b # rest)))"
      using ih by simp
    finally show ?thesis using False by (simp add: addAll_simps)
  qed
qed

lemma blockPairs_scan:
  assumes d: "direction = 1 \<or> direction = -1" and dist: "distinct (map oid bs)"
  shows "blockPairs (findBlockPairs direction (map Some bs))
         = addAll direction [] (map (groupArray direction) (scanGroups (scanOrder direction bs)))"
proof -
  let ?ss = "scanOrder direction bs"
  have len: "length ?ss = length bs" by (simp add: scanOrder_def)
  have dist': "distinct (map oid ([] @ ?ss))"
    using dist by (simp add: scanOrder_def rev_map [symmetric])
  have r: "[0..<Suc (length bs)] = 0 # [Suc (length ([]::Block list))..<Suc (length ([] @ ?ss))]"
    by (simp add: len upt_rec)
  have s0: "scanStep direction ?ss ([], []) 0 = ([], [])"
    by (simp add: scanStep_def elemAt_def)
  have "fst (foldl (scanStep direction ?ss) ([], []) [0..<Suc (length bs)])
      = fst (foldl (scanStep direction ([] @ ?ss)) ([], []) [Suc (length ([]::Block list))..<Suc (length ([] @ ?ss))])"
    by (subst r) (simp only: foldl_Cons s0 append_Nil)
  also have "\<dots> = addAll direction [] (map (groupArray direction) (scanGroups ?ss))"
    by (rule scan_tail [OF dist']) simp
  finally have F: "fst (foldl (scanStep direction ?ss) ([], []) [0..<Suc (length bs)])
      = addAll direction [] (map (groupArray direction) (scanGroups ?ss))" .
  show ?thesis
    unfolding findBlockPairs_scan [OF d] using F
    by (cases "foldl (scanStep direction ?ss) ([], []) [0..<Suc (length bs)]") (simp del: upt_Suc)
qed

text \<open>Every group that the scan builds is one block or two equal neighbours of the scan
  order.\<close>

lemma scanStep_valid:
  assumes "\<forall>g \<in> set (fst st). validGroup d ss g"
  shows "\<forall>g \<in> set (fst (scanStep d ss st i)). validGroup d ss g"
proof (cases st)
  case (Pair bps paired)
  have single: "\<And>a. validGroup d ss [a]" by (simp add: validGroup_def)
  have pair: "validGroup d ss (groupArray d (lb, Some b))"
    if "elemAt ss (int i - 1) = Some lb" "elemAt ss (int i) = Some b" "bvalue b = bvalue lb" for lb b
  proof -
    from that(1) obtain j where j: "i = Suc j" by (cases i) (auto simp add: elemAt_def)
    from that(2) have i: "i < length ss" "b = ss ! i" by (auto simp add: elemAt_int split: if_splits)
    from that(1) j i have "lb = ss ! j" by (auto simp add: elemAt_int split: if_splits)
    with i j that(3) show ?thesis by (auto simp add: validGroup_def)
  qed
  show ?thesis
    using assms single pair
    by (auto simp add: Pair scanStep_def addToBlockPairs_def split: option.splits if_splits)
qed

lemma scan_fold_valid:
  assumes "\<forall>g \<in> set (fst st). validGroup d ss g"
  shows "\<forall>g \<in> set (fst (foldl (scanStep d ss) st is)). validGroup d ss g"
  using assms
proof (induction "is" arbitrary: st)
  case Nil
  then show ?case by simp
next
  case (Cons i "is")
  have "\<forall>g \<in> set (fst (scanStep d ss st i)). validGroup d ss g"
    by (rule scanStep_valid [OF Cons.prems])
  from Cons.IH [OF this] show ?case by simp
qed

lemma blockPairs_valid:
  assumes "direction = 1 \<or> direction = -1"
  shows "\<forall>g \<in> set (blockPairs (findBlockPairs direction (map Some bs))).
           validGroup direction (scanOrder direction bs) g"
proof -
  let ?r = "foldl (scanStep direction (scanOrder direction bs)) ([], []) [0..<Suc (length bs)]"
  have "\<forall>g \<in> set (fst ?r). validGroup direction (scanOrder direction bs) g"
    by (rule scan_fold_valid) simp
  then show ?thesis
    unfolding findBlockPairs_scan [OF assms] by (cases ?r) (simp del: upt_Suc)
qed

section \<open>C3: every block in one group\<close>

lemma length_groupArray: "length (groupArray d grp) = 1 \<or> length (groupArray d grp) = 2"
  by (cases grp; cases "snd grp") auto

lemma mset_scanGroups: "mset (concat (map (groupArray d) (scanGroups ss))) = mset ss"
  by (induction ss rule: scanGroups.induct) auto

lemma mset_concat_rev: "mset (concat (rev xss)) = mset (concat xss)"
  by (induction xss) auto

lemma arranged_simps:
  "set (if c then rev xs else xs) = set xs"
  "length (filter P (if c then rev xs else xs)) = length (filter P xs)"
  "mset (concat (if c then rev xss else xss)) = mset (concat xss)"
  by (simp_all add: mset_concat_rev rev_filter [symmetric])

lemma pairs_uniform:
  assumes "\<forall>b \<in> set ss. bvalue b = v"
  shows "length (filter (\<lambda>g. length g = 2) (map (groupArray d) (scanGroups ss))) = length ss div 2
       \<and> length (filter (\<lambda>g. length g = 1) (map (groupArray d) (scanGroups ss))) = length ss mod 2"
  using assms by (induction ss rule: scanGroups.induct) auto

lemma blockPairs_arranged:
  assumes d: "direction = 1 \<or> direction = -1" and dist: "distinct (map oid bs)"
  shows "blockPairs (findBlockPairs direction (map Some bs))
         = (if direction = 1 then rev (map (groupArray direction) (scanGroups (rev bs)))
            else map (groupArray direction) (scanGroups bs))"
  using d by (auto simp add: blockPairs_scan [OF d dist] addAll_eq scanOrder_def)

text \<open>The scan does not pair across a boundary between two different values, so it can be
  run on each side of the boundary separately.\<close>

lemma scanGroups_append:
  assumes "xs = [] \<or> ys = [] \<or> bvalue (last xs) \<noteq> bvalue (hd ys)"
  shows "scanGroups (xs @ ys) = scanGroups xs @ scanGroups ys"
  using assms
proof (induction xs rule: scanGroups.induct)
  case 1
  then show ?case by simp
next
  case (2 a)
  then show ?case by (cases ys) auto
next
  case (3 a b rest)
  show ?case
  proof (cases "bvalue a = bvalue b")
    case True
    have "rest = [] \<or> ys = [] \<or> bvalue (last rest) \<noteq> bvalue (hd ys)"
      using 3(3) by (cases rest) auto
    from "3.IH"(1) [OF True this] True show ?thesis by simp
  next
    case False
    have "b # rest = [] \<or> ys = [] \<or> bvalue (last (b # rest)) \<noteq> bvalue (hd ys)"
      using 3(3) by auto
    from "3.IH"(2) [OF False this] False show ?thesis by simp
  qed
qed

lemma groups_blocks:
  "g \<in> set (map (groupArray d) (scanGroups xs)) \<Longrightarrow> g \<noteq> [] \<and> set g \<subseteq> set xs"
  by (induction xs rule: scanGroups.induct) (auto split: if_splits)

lemma pair_neighbours:
  assumes d: "direction = 1 \<or> direction = -1"
      and g: "g \<in> set (blockPairs (findBlockPairs direction (map Some bs)))" and l: "length g = 2"
  shows "\<exists>j. Suc j < length bs \<and> g = [bs ! Suc j, bs ! j] \<and> bvalue (bs ! j) = bvalue (bs ! Suc j)"
proof -
  let ?ss = "scanOrder direction bs"
  from blockPairs_valid [OF d] g have "validGroup direction ?ss g" by blast
  with l obtain j where j: "Suc j < length ?ss" "bvalue (?ss ! j) = bvalue (?ss ! Suc j)"
      "g = groupArray direction (?ss ! j, Some (?ss ! Suc j))"
    by (auto simp add: validGroup_def)
  from d show ?thesis
  proof
    assume d1: "direction = 1"
    let ?k = "length bs - Suc (Suc j)"
    from j(1) d1 have jl: "Suc j < length bs" by (simp add: scanOrder_def)
    have a: "?ss ! j = bs ! Suc ?k" using jl d1 by (simp add: scanOrder_def rev_nth Suc_diff_Suc)
    have b: "?ss ! Suc j = bs ! ?k" using jl d1 by (simp add: scanOrder_def rev_nth)
    have "Suc ?k < length bs" using jl by simp
    moreover have "g = [bs ! Suc ?k, bs ! ?k]" using j(3) a b d1 by simp
    moreover have "bvalue (bs ! ?k) = bvalue (bs ! Suc ?k)" using j(2) a b by simp
    ultimately show ?thesis by blast
  next
    assume d2: "direction = -1"
    with j show ?thesis by (intro exI [of _ j]) (simp add: scanOrder_def)
  qed
qed

lemma run_split:
  assumes ne: "R \<noteq> []"
      and u: "\<forall>b \<in> set R. bvalue b = v"
      and a: "A = [] \<or> bvalue (last A) \<noteq> v"
      and c: "C = [] \<or> bvalue (hd C) \<noteq> v"
  shows "scanGroups (A @ R @ C) = scanGroups A @ scanGroups R @ scanGroups C"
proof -
  have hdR: "bvalue (hd R) = v" "bvalue (last R) = v" using ne u by simp_all
  have s1: "scanGroups (A @ R @ C) = scanGroups A @ scanGroups (R @ C)"
    using a ne hdR by (intro scanGroups_append) auto
  have s2: "scanGroups (R @ C) = scanGroups R @ scanGroups C"
    using c hdR by (intro scanGroups_append) auto
  show ?thesis by (simp add: s1 s2)
qed

lemma run_groups:
  assumes dist: "distinct (A @ R @ C)"
      and u: "\<forall>b \<in> set R. bvalue b = v"
      and a: "A = [] \<or> bvalue (last A) \<noteq> v"
      and c: "C = [] \<or> bvalue (hd C) \<noteq> v"
  shows "length (filter (\<lambda>g. length g = 2 \<and> set g \<subseteq> set R) (map (groupArray d) (scanGroups (A @ R @ C)))) = length R div 2
       \<and> length (filter (\<lambda>g. length g = 1 \<and> set g \<subseteq> set R) (map (groupArray d) (scanGroups (A @ R @ C)))) = length R mod 2"
proof (cases "R = []")
  case True
  have "\<And>g. g \<in> set (map (groupArray d) (scanGroups (A @ R @ C))) \<Longrightarrow> \<not> set g \<subseteq> set R"
    using groups_blocks True by fastforce
  then have "filter (\<lambda>g. length g = 2 \<and> set g \<subseteq> set R) (map (groupArray d) (scanGroups (A @ R @ C))) = []"
       "filter (\<lambda>g. length g = 1 \<and> set g \<subseteq> set R) (map (groupArray d) (scanGroups (A @ R @ C))) = []"
    by (simp_all add: filter_empty_conv del: set_map map_append)
  with True show ?thesis by simp
next
  case False
  let ?G = "\<lambda>xs. map (groupArray d) (scanGroups xs)"
  have G: "?G (A @ R @ C) = ?G A @ ?G R @ ?G C"
    by (simp add: run_split [OF False u a c])
  have outA: "\<not> set g \<subseteq> set R" if "g \<in> set (?G A)" for g
  proof -
    from groups_blocks [OF that] obtain x where "x \<in> set g" "x \<in> set A" by (cases g) auto
    with dist show ?thesis by auto
  qed
  have outC: "\<not> set g \<subseteq> set R" if "g \<in> set (?G C)" for g
  proof -
    from groups_blocks [OF that] obtain x where "x \<in> set g" "x \<in> set C" by (cases g) auto
    with dist show ?thesis by auto
  qed
  have inR: "set g \<subseteq> set R" if "g \<in> set (?G R)" for g
    using groups_blocks [OF that] by simp
  have fA: "filter (\<lambda>g. length g = n \<and> set g \<subseteq> set R) (?G A) = []" for n
    using outA by (simp add: filter_empty_conv del: set_map)
  have fC: "filter (\<lambda>g. length g = n \<and> set g \<subseteq> set R) (?G C) = []" for n
    using outC by (simp add: filter_empty_conv del: set_map)
  have fR: "filter (\<lambda>g. length g = n \<and> set g \<subseteq> set R) (?G R) = filter (\<lambda>g. length g = n) (?G R)" for n
    using inR by (intro filter_cong) auto
  from pairs_uniform [OF u, of d] show ?thesis
    unfolding G filter_append fA fC fR by simp
qed

text \<open>Inside a run of one value the scan pairs the blocks two by two from the end it
  reaches first; a block is left over at the far end when the run is odd.\<close>

lemma uniform_members:
  assumes "\<forall>b \<in> set R. bvalue b = v"
  shows "(2 * i + 1 < length R \<longrightarrow> (R ! (2 * i), Some (R ! (2 * i + 1))) \<in> set (scanGroups R))
       \<and> (odd (length R) \<longrightarrow> (last R, None) \<in> set (scanGroups R))"
  using assms
proof (induction R arbitrary: i rule: scanGroups.induct)
  case 1
  then show ?case by simp
next
  case (2 a)
  then show ?case by simp
next
  case (3 a b rest)
  then have eq: "bvalue a = bvalue b" and u: "\<forall>b \<in> set rest. bvalue b = v" by simp_all
  show ?case
  proof (cases i)
    case 0
    with "3.IH"(1) [OF eq u, of 0] eq show ?thesis by (cases rest) auto
  next
    case (Suc k)
    with "3.IH"(1) [OF eq u, of k] eq show ?thesis by (cases rest) auto
  qed
qed

lemma run_members:
  assumes u: "\<forall>b \<in> set R. bvalue b = v"
      and a: "A = [] \<or> bvalue (last A) \<noteq> v"
      and c: "C = [] \<or> bvalue (hd C) \<noteq> v"
  shows "(2 * i + 1 < length R \<longrightarrow>
            groupArray d (R ! (2 * i), Some (R ! (2 * i + 1))) \<in> set (map (groupArray d) (scanGroups (A @ R @ C))))
       \<and> (odd (length R) \<longrightarrow> [last R] \<in> set (map (groupArray d) (scanGroups (A @ R @ C))))"
proof (cases "R = []")
  case True
  then show ?thesis by simp
next
  case False
  have G: "set (scanGroups (A @ R @ C)) = set (scanGroups A) \<union> set (scanGroups R) \<union> set (scanGroups C)"
    by (auto simp add: run_split [OF False u a c])
  have m: "(R ! (2 * i), Some (R ! (2 * i + 1))) \<in> set (scanGroups (A @ R @ C))" if "2 * i + 1 < length R"
    using uniform_members [OF u, of i] that unfolding G by blast
  have l: "(last R, None) \<in> set (scanGroups (A @ R @ C))" if "odd (length R)"
    using uniform_members [OF u, of i] that unfolding G by blast
  have l': "[last R] \<in> set (map (groupArray d) (scanGroups (A @ R @ C)))" if "odd (length R)"
    using imageI [OF l [OF that], of "groupArray d"] by simp
  from m l' show ?thesis by (simp del: groupArray.simps)
qed

text \<open>
  C3. For a line of distinct block objects and a direction sign of 1 or -1, the grouping
  returned by \<^verbatim>\<open>findBlockPairs\<close> consists of singletons and pairs only (never a group of
  three) and holds every block of the line exactly once, so no block is in more than one
  pair. A pair is always two neighbours of the line that have the same value, stored as
  [higher index, lower index]. A line of \<open>m\<close> blocks of one value has \<open>m div 2\<close> pairs and
  \<open>m mod 2\<close> singletons. More generally, for every maximal run of \<open>m\<close> equal adjacent values
  anywhere in the line (the line is \<open>pre @ run @ post\<close>, every block of \<open>run\<close> has the value
  \<open>v\<close>, and the blocks next to the run, if any, have another value), exactly \<open>m div 2\<close> pairs
  and \<open>m mod 2\<close> singletons of the grouping lie inside the run: one pair and one singleton
  for a run of three, two pairs for a run of four. The pairs of a run are formed two by two
  from the end of the run that the blocks move to (its first block for direction -1, its
  last block for direction 1), and the block left over by an odd run is the one at the
  other end.
\<close>

theorem findBlockPairs_groups:
  assumes d: "direction = 1 \<or> direction = -1" and dist: "distinct (map oid bs)"
  shows "(\<forall>g \<in> set (blockPairs (findBlockPairs direction (map Some bs))). length g = 1 \<or> length g = 2)
       \<and> mset (concat (blockPairs (findBlockPairs direction (map Some bs)))) = mset bs
       \<and> distinct (map oid (concat (blockPairs (findBlockPairs direction (map Some bs)))))
       \<and> ((\<forall>b \<in> set bs. bvalue b = w) \<longrightarrow>
            length (filter (\<lambda>g. length g = 2) (blockPairs (findBlockPairs direction (map Some bs)))) = length bs div 2
          \<and> length (filter (\<lambda>g. length g = 1) (blockPairs (findBlockPairs direction (map Some bs)))) = length bs mod 2)
       \<and> (\<forall>g \<in> set (blockPairs (findBlockPairs direction (map Some bs))). length g = 2 \<longrightarrow>
            (\<exists>j. Suc j < length bs \<and> g = [bs ! Suc j, bs ! j] \<and> bvalue (bs ! j) = bvalue (bs ! Suc j)))
       \<and> (bs = pre @ run @ post \<and> (\<forall>b \<in> set run. bvalue b = v)
            \<and> (pre = [] \<or> bvalue (last pre) \<noteq> v) \<and> (post = [] \<or> bvalue (hd post) \<noteq> v) \<longrightarrow>
            length (filter (\<lambda>g. length g = 2 \<and> set g \<subseteq> set run)
                      (blockPairs (findBlockPairs direction (map Some bs)))) = length run div 2
          \<and> length (filter (\<lambda>g. length g = 1 \<and> set g \<subseteq> set run)
                      (blockPairs (findBlockPairs direction (map Some bs)))) = length run mod 2
          \<and> (direction = -1 \<longrightarrow>
               (\<forall>i. 2 * i + 1 < length run \<longrightarrow>
                  [run ! (2 * i + 1), run ! (2 * i)] \<in> set (blockPairs (findBlockPairs direction (map Some bs))))
             \<and> (odd (length run) \<longrightarrow> [last run] \<in> set (blockPairs (findBlockPairs direction (map Some bs)))))
          \<and> (direction = 1 \<longrightarrow>
               (\<forall>i. 2 * i + 1 < length run \<longrightarrow>
                  [run ! (length run - 1 - 2 * i), run ! (length run - 2 - 2 * i)]
                    \<in> set (blockPairs (findBlockPairs direction (map Some bs))))
             \<and> (odd (length run) \<longrightarrow> [hd run] \<in> set (blockPairs (findBlockPairs direction (map Some bs))))))"
proof -
  let ?gs = "blockPairs (findBlockPairs direction (map Some bs))"
  let ?ss = "scanOrder direction bs"
  let ?G = "map (groupArray direction) (scanGroups ?ss)"
  have gs: "?gs = (if direction = 1 then rev ?G else ?G)"
    by (simp add: blockPairs_scan [OF d dist] addAll_eq)
  have ss: "mset ?ss = mset bs" "length ?ss = length bs" "set ?ss = set bs"
    by (simp_all add: scanOrder_def)
  have a: "\<forall>g \<in> set ?gs. length g = 1 \<or> length g = 2"
    unfolding gs arranged_simps using length_groupArray by auto
  have "mset (concat ?G) = mset bs"
    by (simp only: mset_scanGroups ss)
  then have b: "mset (concat ?gs) = mset bs"
    by (simp only: gs arranged_simps)
  have "mset (map oid (concat ?gs)) = mset (map oid bs)"
    using b by (metis mset_map)
  then have c: "distinct (map oid (concat ?gs))"
    using dist by (metis mset_eq_imp_distinct_iff)
  have e: "(\<forall>b \<in> set bs. bvalue b = w) \<longrightarrow>
            length (filter (\<lambda>g. length g = 2) ?gs) = length bs div 2
          \<and> length (filter (\<lambda>g. length g = 1) ?gs) = length bs mod 2"
  proof
    assume "\<forall>b \<in> set bs. bvalue b = w"
    then have "\<forall>b \<in> set ?ss. bvalue b = w" by (simp add: ss)
    from pairs_uniform [OF this, of direction]
    show "length (filter (\<lambda>g. length g = 2) ?gs) = length bs div 2
          \<and> length (filter (\<lambda>g. length g = 1) ?gs) = length bs mod 2"
      by (simp only: gs arranged_simps ss)
  qed
  have f: "\<forall>g \<in> set ?gs. length g = 2 \<longrightarrow>
            (\<exists>j. Suc j < length bs \<and> g = [bs ! Suc j, bs ! j] \<and> bvalue (bs ! j) = bvalue (bs ! Suc j))"
    using pair_neighbours [OF d] by blast
  have h: "length (filter (\<lambda>g. length g = 2 \<and> set g \<subseteq> set run) ?gs) = length run div 2
          \<and> length (filter (\<lambda>g. length g = 1 \<and> set g \<subseteq> set run) ?gs) = length run mod 2
          \<and> (direction = -1 \<longrightarrow>
               (\<forall>i. 2 * i + 1 < length run \<longrightarrow> [run ! (2 * i + 1), run ! (2 * i)] \<in> set ?gs)
             \<and> (odd (length run) \<longrightarrow> [last run] \<in> set ?gs))
          \<and> (direction = 1 \<longrightarrow>
               (\<forall>i. 2 * i + 1 < length run \<longrightarrow>
                  [run ! (length run - 1 - 2 * i), run ! (length run - 2 - 2 * i)] \<in> set ?gs)
             \<and> (odd (length run) \<longrightarrow> [hd run] \<in> set ?gs))"
    if split: "bs = pre @ run @ post" and u: "\<forall>b \<in> set run. bvalue b = v"
      and p: "pre = [] \<or> bvalue (last pre) \<noteq> v" and q: "post = [] \<or> bvalue (hd post) \<noteq> v"
  proof -
    have dbs: "distinct bs" using dist by (simp add: distinct_map)
    show ?thesis
    proof (cases "direction = 1")
      case True
      have so: "?ss = rev post @ rev run @ rev pre"
        by (simp add: scanOrder_def True split)
      have dd: "distinct (rev post @ rev run @ rev pre)"
        using dbs unfolding split by auto
      have u': "\<forall>b \<in> set (rev run). bvalue b = v" using u by simp
      have p': "rev post = [] \<or> bvalue (last (rev post)) \<noteq> v" using q by (cases post) auto
      have q': "rev pre = [] \<or> bvalue (hd (rev pre)) \<noteq> v" using p by (cases pre rule: rev_cases) auto
      from run_groups [OF dd u' p' q', of direction]
      have n: "length (filter (\<lambda>g. length g = 2 \<and> set g \<subseteq> set run) ?gs) = length run div 2
          \<and> length (filter (\<lambda>g. length g = 1 \<and> set g \<subseteq> set run) ?gs) = length run mod 2"
        by (simp only: gs arranged_simps so set_rev length_rev)
      have m1: "[run ! (length run - 1 - 2 * i), run ! (length run - 2 - 2 * i)] \<in> set ?gs"
        if i: "2 * i + 1 < length run" for i
      proof -
        have r1: "rev run ! (2 * i) = run ! (length run - 1 - 2 * i)"
          using i by (simp add: rev_nth)
        have r2: "rev run ! (2 * i + 1) = run ! (length run - 2 - 2 * i)"
          using i by (simp add: rev_nth)
        from run_members [OF u' p' q', of i direction] i
        have "groupArray direction (rev run ! (2 * i), Some (rev run ! (2 * i + 1))) \<in> set ?G"
          by (simp only: so length_rev)
        then show ?thesis
          unfolding gs arranged_simps r1 r2 using True by simp
      qed
      have m2: "[hd run] \<in> set ?gs" if o: "odd (length run)"
      proof -
        from o have "run \<noteq> []" by auto
        then have "last (rev run) = hd run" by (simp add: last_rev)
        with run_members [OF u' p' q', of i direction] o show ?thesis
          by (simp only: gs arranged_simps so length_rev) simp
      qed
      from n m1 m2 True show ?thesis by simp
    next
      case False
      with d have dm: "direction = -1" by simp
      have so: "?ss = pre @ run @ post"
        using False by (simp add: scanOrder_def split)
      have dd: "distinct (pre @ run @ post)"
        using dbs unfolding split .
      from run_groups [OF dd u p q, of direction]
      have n: "length (filter (\<lambda>g. length g = 2 \<and> set g \<subseteq> set run) ?gs) = length run div 2
          \<and> length (filter (\<lambda>g. length g = 1 \<and> set g \<subseteq> set run) ?gs) = length run mod 2"
        by (simp only: gs arranged_simps so)
      have m1: "[run ! (2 * i + 1), run ! (2 * i)] \<in> set ?gs"
        if i: "2 * i + 1 < length run" for i
      proof -
        from run_members [OF u p q, of i direction] i
        have "groupArray direction (run ! (2 * i), Some (run ! (2 * i + 1))) \<in> set ?G"
          by (simp only: so)
        then show ?thesis
          unfolding gs arranged_simps using dm by simp
      qed
      have m2: "[last run] \<in> set ?gs" if o: "odd (length run)"
        using run_members [OF u p q, of i direction] o
        by (simp only: gs arranged_simps so) simp
      from n m1 m2 dm show ?thesis by simp
    qed
  qed
  from a b c e f h show ?thesis by blast
qed

theorem findBlockPairs_groups_witness:
  "distinct (map oid lineMixed)
   \<and> blockPairs (findBlockPairs (-1) (map Some lineMixed))
       = [[testBlock 4 ''d'' 4], [testBlock 2 ''b'' 2, testBlock 1 ''a'' 2], [testBlock 3 ''c'' 2]]
   \<and> blockPairs (findBlockPairs 1 (map Some lineMixed))
       = [[testBlock 4 ''d'' 4], [testBlock 1 ''a'' 2], [testBlock 3 ''c'' 2, testBlock 2 ''b'' 2]]
   \<and> mset (concat (blockPairs (findBlockPairs (-1) (map Some lineMixed)))) = mset lineMixed
   \<and> length (filter (\<lambda>g. length g = 2 \<and> set g \<subseteq> set (tl lineMixed))
               (blockPairs (findBlockPairs (-1) (map Some lineMixed)))) = 1
   \<and> length (filter (\<lambda>g. length g = 1 \<and> set g \<subseteq> set (tl lineMixed))
               (blockPairs (findBlockPairs (-1) (map Some lineMixed)))) = 1
   \<and> [testBlock 2 ''b'' 2, testBlock 1 ''a'' 2] \<in> set (blockPairs (findBlockPairs (-1) (map Some lineMixed)))
   \<and> [testBlock 3 ''c'' 2] \<in> set (blockPairs (findBlockPairs (-1) (map Some lineMixed)))
   \<and> length (filter (\<lambda>g. length g = 2 \<and> set g \<subseteq> set (tl lineMixed))
               (blockPairs (findBlockPairs 1 (map Some lineMixed)))) = 1
   \<and> [testBlock 3 ''c'' 2, testBlock 2 ''b'' 2] \<in> set (blockPairs (findBlockPairs 1 (map Some lineMixed)))
   \<and> [testBlock 1 ''a'' 2] \<in> set (blockPairs (findBlockPairs 1 (map Some lineMixed)))
   \<and> distinct (map oid lineOfThree)
   \<and> length (filter (\<lambda>g. length g = 2) (blockPairs (findBlockPairs 1 (map Some lineOfThree)))) = 1
   \<and> length (filter (\<lambda>g. length g = 1) (blockPairs (findBlockPairs 1 (map Some lineOfThree)))) = 1"
proof -
  have dist: "distinct (map oid lineMixed)"
    by (simp add: lineMixed_def testBlock_def)
  have split: "lineMixed = [hd lineMixed] @ tl lineMixed @ []"
    by (simp add: lineMixed_def)
  have u: "\<forall>b \<in> set (tl lineMixed). bvalue b = 2"
    by (simp add: lineMixed_def testBlock_def)
  have p: "[hd lineMixed] = [] \<or> bvalue (last [hd lineMixed]) \<noteq> 2"
    by (simp add: lineMixed_def testBlock_def)
  have l: "length (tl lineMixed) div 2 = 1" "length (tl lineMixed) mod 2 = 1"
      "odd (length (tl lineMixed))" "2 * 0 + 1 < length (tl lineMixed)"
    by (simp_all add: lineMixed_def)
  have n: "tl lineMixed ! (2 * 0 + 1) = testBlock 2 ''b'' 2" "tl lineMixed ! (2 * 0) = testBlock 1 ''a'' 2"
      "last (tl lineMixed) = testBlock 3 ''c'' 2" "hd (tl lineMixed) = testBlock 1 ''a'' 2"
      "tl lineMixed ! (length (tl lineMixed) - 1 - 2 * 0) = testBlock 3 ''c'' 2"
      "tl lineMixed ! (length (tl lineMixed) - 2 - 2 * 0) = testBlock 2 ''b'' 2"
    by (simp_all add: lineMixed_def)
  have e1: "blockPairs (findBlockPairs (-1) (map Some lineMixed))
       = [[testBlock 4 ''d'' 4], [testBlock 2 ''b'' 2, testBlock 1 ''a'' 2], [testBlock 3 ''c'' 2]]"
    by code_simp
  have e2: "blockPairs (findBlockPairs 1 (map Some lineMixed))
       = [[testBlock 4 ''d'' 4], [testBlock 1 ''a'' 2], [testBlock 3 ''c'' 2, testBlock 2 ''b'' 2]]"
    by code_simp
  from findBlockPairs_groups [of "-1" lineMixed w "[hd lineMixed]" "tl lineMixed" "[]" 2] dist split u p
  have m: "mset (concat (blockPairs (findBlockPairs (-1) (map Some lineMixed)))) = mset lineMixed
     \<and> length (filter (\<lambda>g. length g = 2 \<and> set g \<subseteq> set (tl lineMixed))
               (blockPairs (findBlockPairs (-1) (map Some lineMixed)))) = length (tl lineMixed) div 2
     \<and> length (filter (\<lambda>g. length g = 1 \<and> set g \<subseteq> set (tl lineMixed))
               (blockPairs (findBlockPairs (-1) (map Some lineMixed)))) = length (tl lineMixed) mod 2
     \<and> [tl lineMixed ! (2 * 0 + 1), tl lineMixed ! (2 * 0)] \<in> set (blockPairs (findBlockPairs (-1) (map Some lineMixed)))
     \<and> [last (tl lineMixed)] \<in> set (blockPairs (findBlockPairs (-1) (map Some lineMixed)))"
    using l by blast
  from findBlockPairs_groups [of 1 lineMixed w "[hd lineMixed]" "tl lineMixed" "[]" 2] dist split u p
  have q: "length (filter (\<lambda>g. length g = 2 \<and> set g \<subseteq> set (tl lineMixed))
               (blockPairs (findBlockPairs 1 (map Some lineMixed)))) = length (tl lineMixed) div 2
     \<and> [tl lineMixed ! (length (tl lineMixed) - 1 - 2 * 0), tl lineMixed ! (length (tl lineMixed) - 2 - 2 * 0)]
          \<in> set (blockPairs (findBlockPairs 1 (map Some lineMixed)))
     \<and> [hd (tl lineMixed)] \<in> set (blockPairs (findBlockPairs 1 (map Some lineMixed)))"
    using l by blast
  have dist3: "distinct (map oid lineOfThree)"
    by (simp add: lineOfThree_def testBlock_def)
  have u3: "\<forall>b \<in> set lineOfThree. bvalue b = 2"
    by (simp add: lineOfThree_def testBlock_def)
  have l3: "length lineOfThree div 2 = 1" "length lineOfThree mod 2 = 1"
    by (simp_all add: lineOfThree_def)
  from findBlockPairs_groups [of 1 lineOfThree 2] dist3 u3
  have t: "length (filter (\<lambda>g. length g = 2) (blockPairs (findBlockPairs 1 (map Some lineOfThree)))) = length lineOfThree div 2
     \<and> length (filter (\<lambda>g. length g = 1) (blockPairs (findBlockPairs 1 (map Some lineOfThree)))) = length lineOfThree mod 2"
    by blast
  from dist e1 e2 m q dist3 t show ?thesis
    unfolding l n l3 by blast
qed

text \<open>Four blocks of one value give two pairs in one resolution, not "at most one merged
  pair": the line 2 2 2 2 resolves to 4 4.\<close>

theorem four_equal_counterexample:
  "blockPairs (findBlockPairs (-1) (map Some lineOfFour))
     = [[testBlock 2 ''b'' 2, testBlock 1 ''a'' 2], [testBlock 4 ''d'' 2, testBlock 3 ''c'' 2]]
   \<and> length (filter (\<lambda>g. length g = 2) (blockPairs (findBlockPairs (-1) (map Some lineOfFour)))) = 2"
  by code_simp

section \<open>C1: the merged cell\<close>

lemma filter_pluckBlocks:
  "filter (\<lambda>b. b \<noteq> None) (pluckBlocks cells) = map Some (lineBlocks cells)"
  by (induction cells) (auto simp add: pluckBlocks_def lineBlocks_def split: option.splits)

lemma collect_map_total:
  assumes "\<forall>x \<in> set xs. \<exists>y. f x = Inr y"
  shows "\<exists>out. collect (map f xs) = Inr out \<and> length out = length xs
           \<and> (\<forall>i < length xs. f (xs ! i) = Inr (out ! i))"
  using assms
proof (induction xs)
  case Nil
  then show ?case by simp
next
  case (Cons x xs)
  then obtain out where out: "collect (map f xs) = Inr out" "length out = length xs"
      "\<forall>i < length xs. f (xs ! i) = Inr (out ! i)" by auto
  from Cons.prems obtain y where y: "f x = Inr y" by auto
  have "\<forall>i < length (x # xs). f ((x # xs) ! i) = Inr ((y # out) ! i)"
    using y out(3) by (auto simp add: nth_Cons split: nat.splits)
  then show ?case using y out by auto
qed

text \<open>What the callback returns for one cell when the groups are valid.\<close>

lemma resolveCell_valid:
  assumes d: "d = 1 \<or> d = -1" and v: "\<forall>g \<in> set bps. validGroup d ss g"
  shows "\<exists>c. resolveCell d a bps len i cell = Inr c \<and>
           (\<forall>m. mergedBlock c = Some m \<longrightarrow>
              (\<exists>j. Suc j < length ss \<and> bvalue (ss ! j) = bvalue (ss ! Suc j) \<and> m = ss ! j \<and>
                   block c = Some ((ss ! Suc j)\<lparr>oid := a, bvalue := bvalue (ss ! Suc j) + bvalue (ss ! j)\<rparr>)))"
proof -
  let ?k = "if d = 1 then int (length bps) - int len + int i else int i"
  show ?thesis
  proof (cases "elemAt bps ?k")
    case None
    then show ?thesis by (simp add: resolveCell_def Let_def)
  next
    case (Some g)
    then have "g \<in> set bps" by (auto simp add: elemAt_def split: if_splits)
    with v have "validGroup d ss g" by simp
    then consider (single) x where "g = [x]"
      | (pair) j where "Suc j < length ss" "bvalue (ss ! j) = bvalue (ss ! Suc j)"
          "g = groupArray d (ss ! j, Some (ss ! Suc j))"
      by (auto simp add: validGroup_def)
    then show ?thesis
    proof cases
      case single
      with Some show ?thesis by (simp add: resolveCell_def Let_def)
    next
      case pair
      have "(if d = 1 then rev g else g) = [ss ! Suc j, ss ! j]"
        using d pair(3) by auto
      moreover have "length g \<noteq> 1" using pair(3) by auto
      ultimately have "resolveCell d a bps len i cell =
          Inr (cell\<lparr>block := Some ((ss ! Suc j)\<lparr>oid := a, bvalue := bvalue (ss ! Suc j) + bvalue (ss ! j)\<rparr>),
                    mergedBlock := Some (ss ! j)\<rparr>)"
        using Some by (simp add: resolveCell_def Let_def)
      with pair(1,2) show ?thesis by auto
    qed
  qed
qed

text \<open>
  C1. For a line of cells with at least one block and a direction sign of 1 or -1,
  \<^verbatim>\<open>resolveColumnOrRowInDirection\<close> returns a line of the same length, and every cell of it
  with a merged block comes from two neighbours of the scan order (the blocks listed from
  the destination edge on) that have the same value, and its block has the sum of the two
  values. The id and the merged block are exchanged with respect to the documented
  behaviour: the cell's block has the id of the member farther from the destination edge,
  and \<^verbatim>\<open>mergedBlock\<close> is the member nearer the destination edge. The comment in
  \<^verbatim>\<open>findBlockPairs\<close> asks for a pair in the original order of the line (lower index first),
  for which the resolver, reversing the pair for direction 1, would take the member nearer
  the destination edge as the base block; the code builds every pair as
  [higher index, lower index] in both directions, so the base block is the trailing member.
\<close>

theorem resolve_merged_cells:
  assumes d: "direction = 1 \<or> direction = -1" and ne: "lineBlocks cells \<noteq> []"
  shows "\<exists>out. resolveColumnOrRowInDirection direction alloc cells = Inr out \<and> length out = length cells \<and>
     (\<forall>i < length out. \<forall>m. mergedBlock (out ! i) = Some m \<longrightarrow>
        (\<exists>j blk. Suc j < length (lineBlocks cells)
           \<and> bvalue (scanOrder direction (lineBlocks cells) ! j) = bvalue (scanOrder direction (lineBlocks cells) ! Suc j)
           \<and> block (out ! i) = Some blk
           \<and> bvalue blk = bvalue (scanOrder direction (lineBlocks cells) ! j) + bvalue (scanOrder direction (lineBlocks cells) ! Suc j)
           \<and> bid blk = bid (scanOrder direction (lineBlocks cells) ! Suc j)
           \<and> m = scanOrder direction (lineBlocks cells) ! j))"
proof -
  let ?bs = "lineBlocks cells"
  let ?ss = "scanOrder direction ?bs"
  let ?bps = "blockPairs (findBlockPairs direction (map Some ?bs))"
  let ?f = "\<lambda>(index, cell). resolveCell direction (alloc index) ?bps (length cells) index cell"
  let ?xs = "zip [0..<length cells] cells"
  have len: "length ?ss = length ?bs" by (simp add: scanOrder_def)
  have v: "\<forall>g \<in> set ?bps. validGroup direction ?ss g" by (rule blockPairs_valid [OF d])
  have res: "resolveColumnOrRowInDirection direction alloc cells = collect (map ?f ?xs)"
    unfolding resolveColumnOrRowInDirection_def filter_pluckBlocks Let_def using ne by simp
  have tot: "\<forall>x \<in> set ?xs. \<exists>y. ?f x = Inr y"
    using resolveCell_valid [OF d v] by (auto split: prod.splits) blast
  from collect_map_total [OF tot] obtain out where out: "collect (map ?f ?xs) = Inr out"
    "length out = length ?xs" "\<forall>i < length ?xs. ?f (?xs ! i) = Inr (out ! i)" by blast
  have "\<exists>j blk. Suc j < length ?bs \<and> bvalue (?ss ! j) = bvalue (?ss ! Suc j) \<and> block (out ! i) = Some blk
           \<and> bvalue blk = bvalue (?ss ! j) + bvalue (?ss ! Suc j) \<and> bid blk = bid (?ss ! Suc j) \<and> m = ?ss ! j"
    if i: "i < length out" and m: "mergedBlock (out ! i) = Some m" for i m
  proof -
    from i out(2) have il: "i < length cells" by simp
    then have "?xs ! i = (i, cells ! i)" by simp
    with out(3) il have r: "resolveCell direction (alloc i) ?bps (length cells) i (cells ! i) = Inr (out ! i)"
      by (metis (mono_tags, lifting) case_prod_conv length_zip length_upt min.idem diff_zero)
    from resolveCell_valid [OF d v, of "alloc i" "length cells" i "cells ! i"] r m
    obtain j where j: "Suc j < length ?ss" "bvalue (?ss ! j) = bvalue (?ss ! Suc j)" "m = ?ss ! j"
      "block (out ! i) = Some ((?ss ! Suc j)\<lparr>oid := alloc i, bvalue := bvalue (?ss ! Suc j) + bvalue (?ss ! j)\<rparr>)"
      by auto
    then show ?thesis using len by auto
  qed
  with out(1,2) res show ?thesis by auto
qed


theorem resolve_merged_cells_witness:
  "lineBlocks lineTwoTwo \<noteq> [] \<and>
   (\<exists>out. resolveColumnOrRowInDirection (-1) (exampleAlloc 0) lineTwoTwo = Inr out \<and>
      length out = length lineTwoTwo \<and>
      (\<forall>i < length out. \<forall>m. mergedBlock (out ! i) = Some m \<longrightarrow>
        (\<exists>j blk. Suc j < length (lineBlocks lineTwoTwo)
           \<and> bvalue (scanOrder (-1) (lineBlocks lineTwoTwo) ! j) = bvalue (scanOrder (-1) (lineBlocks lineTwoTwo) ! Suc j)
           \<and> block (out ! i) = Some blk
           \<and> bvalue blk = bvalue (scanOrder (-1) (lineBlocks lineTwoTwo) ! j) + bvalue (scanOrder (-1) (lineBlocks lineTwoTwo) ! Suc j)
           \<and> bid blk = bid (scanOrder (-1) (lineBlocks lineTwoTwo) ! Suc j)
           \<and> m = scanOrder (-1) (lineBlocks lineTwoTwo) ! j)))"
proof -
  have ne: "lineBlocks lineTwoTwo \<noteq> []"
    by (simp add: lineTwoTwo_def lineBlocks_def makeCellWithBlock_def)
  have d: "(-1::int) = 1 \<or> (-1::int) = -1" by simp
  from resolve_merged_cells [OF d ne, of "exampleAlloc 0"] ne show ?thesis by (rule_tac conjI)
qed

text \<open>
  The failing input: the line \<open>a _ b\<close> of two blocks of value 2. Moved toward the low-index
  edge (direction -1), \<open>a\<close> is nearer the destination edge, and the merged cell holds a block
  with the id of \<open>b\<close> and \<open>a\<close> as its merged block. Moved toward the high-index edge
  (direction 1), \<open>b\<close> is nearer, and the merged cell holds a block with the id of \<open>a\<close> and
  \<open>b\<close> as its merged block.
\<close>

theorem merged_id_evaluation:
  "resolveColumnOrRowInDirection (-1) (exampleAlloc 0) lineTwoTwo
     = Inr [\<lparr>block = Some \<lparr>oid = 100, bid = ''b'', bvalue = 4, isNew = False\<rparr>,
             mergedBlock = Some (testBlock 1 ''a'' 2)\<rparr>,
            makeEmptyCell, makeEmptyCell]
   \<and> resolveColumnOrRowInDirection 1 (exampleAlloc 0) lineTwoTwo
     = Inr [makeEmptyCell, makeEmptyCell,
            \<lparr>block = Some \<lparr>oid = 102, bid = ''a'', bvalue = 4, isNew = False\<rparr>,
             mergedBlock = Some (testBlock 2 ''b'' 2)\<rparr>]"
  by code_simp

section \<open>C2: hasLost\<close>

lemma scanStep_paired_mono: "snd st \<noteq> [] \<Longrightarrow> snd (scanStep d ss st i) \<noteq> []"
  by (cases st) (auto simp add: scanStep_def split: option.splits)

lemma scan_fold_paired_mono: "snd st \<noteq> [] \<Longrightarrow> snd (foldl (scanStep d ss) st is) \<noteq> []"
  by (induction "is" arbitrary: st) (simp_all add: scanStep_paired_mono)

lemma scan_paired:
  "snd (foldl (scanStep d (pre @ rest)) (bps, []) [Suc (length pre)..<Suc (length (pre @ rest))]) \<noteq> []
     \<longleftrightarrow> adjacentEqual rest"
proof (induction rest arbitrary: pre bps)
  case Nil
  then show ?case by simp
next
  case (Cons a rest)
  let ?ss = "pre @ a # rest"
  let ?k = "Suc (length pre)"
  have r: "[?k..<Suc (length ?ss)] = ?k # [Suc ?k..<Suc (length ?ss)]"
    by (simp add: upt_rec)
  have la: "elemAt ?ss (int ?k - 1) = Some a"
    using elemAt_append_hd [of pre a rest] by simp
  show ?case
  proof (cases rest)
    case Nil
    have "elemAt (pre @ [a]) (int ?k) = None" by (rule elemAt_append_end)
    with la Nil have "scanStep d ?ss (bps, []) ?k = (addToBlockPairs d [a] bps, [])"
      by (simp add: scanStep_def arrayIncludes_def)
    with Nil show ?thesis by (simp add: upt_rec)
  next
    case (Cons b rest')
    have lb: "elemAt ?ss (int ?k) = Some b"
      unfolding Cons by (rule elemAt_append_snd)
    show ?thesis
    proof (cases "bvalue a = bvalue b")
      case True
      with la lb have "snd (scanStep d ?ss (bps, []) ?k) \<noteq> []"
        by (simp add: scanStep_def arrayIncludes_def)
      then have "snd (foldl (scanStep d ?ss) (scanStep d ?ss (bps, []) ?k) [Suc ?k..<Suc (length ?ss)]) \<noteq> []"
        by (rule scan_fold_paired_mono)
      then have "snd (foldl (scanStep d ?ss) (bps, []) [?k..<Suc (length ?ss)]) \<noteq> []"
        by (subst r) simp
      with True Cons show ?thesis by simp
    next
      case False
      with la lb have s: "scanStep d ?ss (bps, []) ?k = (addToBlockPairs d [a] bps, [])"
        by (simp add: scanStep_def arrayIncludes_def)
      have "snd (foldl (scanStep d ?ss) (bps, []) [?k..<Suc (length ?ss)])
          = snd (foldl (scanStep d ((pre @ [a]) @ rest)) (addToBlockPairs d [a] bps, [])
                  [Suc (length (pre @ [a]))..<Suc (length ((pre @ [a]) @ rest))])"
        by (subst r) (simp add: s)
      with Cons.IH [of "pre @ [a]" "addToBlockPairs d [a] bps"] False Cons show ?thesis by simp
    qed
  qed
qed

lemma adjacentEqual_iff:
  "adjacentEqual bs \<longleftrightarrow> (\<exists>i. Suc i < length bs \<and> bvalue (bs ! i) = bvalue (bs ! Suc i))"
proof (induction bs rule: adjacentEqual.induct)
  case (1 a b rest)
  have "(\<exists>i. Suc i < length (a # b # rest) \<and> bvalue ((a # b # rest) ! i) = bvalue ((a # b # rest) ! Suc i))
      \<longleftrightarrow> bvalue a = bvalue b \<or> (\<exists>i. Suc i < length (b # rest) \<and> bvalue ((b # rest) ! i) = bvalue ((b # rest) ! Suc i))"
  proof
    assume "\<exists>i. Suc i < length (a # b # rest) \<and> bvalue ((a # b # rest) ! i) = bvalue ((a # b # rest) ! Suc i)"
    then obtain i where i: "Suc i < length (a # b # rest)" "bvalue ((a # b # rest) ! i) = bvalue ((a # b # rest) ! Suc i)"
      by blast
    show "bvalue a = bvalue b \<or> (\<exists>i. Suc i < length (b # rest) \<and> bvalue ((b # rest) ! i) = bvalue ((b # rest) ! Suc i))"
    proof (cases i)
      case 0
      with i show ?thesis by simp
    next
      case (Suc j)
      with i have "Suc j < length (b # rest) \<and> bvalue ((b # rest) ! j) = bvalue ((b # rest) ! Suc j)" by simp
      then show ?thesis by blast
    qed
  next
    assume "bvalue a = bvalue b \<or> (\<exists>i. Suc i < length (b # rest) \<and> bvalue ((b # rest) ! i) = bvalue ((b # rest) ! Suc i))"
    then show "\<exists>i. Suc i < length (a # b # rest) \<and> bvalue ((a # b # rest) ! i) = bvalue ((a # b # rest) ! Suc i)"
    proof
      assume "bvalue a = bvalue b"
      then show ?thesis by (intro exI [of _ 0]) simp
    next
      assume "\<exists>i. Suc i < length (b # rest) \<and> bvalue ((b # rest) ! i) = bvalue ((b # rest) ! Suc i)"
      then obtain i where "Suc i < length (b # rest)" "bvalue ((b # rest) ! i) = bvalue ((b # rest) ! Suc i)" by blast
      then show ?thesis by (intro exI [of _ "Suc i"]) simp
    qed
  qed
  with 1 show ?case by simp
qed simp_all

lemma adjacentEqual_rev: "adjacentEqual (rev bs) = adjacentEqual bs"
proof -
  have "\<exists>i. Suc i < length (rev xs) \<and> bvalue (rev xs ! i) = bvalue (rev xs ! Suc i)"
    if "Suc i < length xs" "bvalue (xs ! i) = bvalue (xs ! Suc i)" for xs :: "Block list" and i
  proof -
    let ?j = "length xs - Suc (Suc i)"
    have "Suc ?j < length (rev xs)" using that by simp
    moreover have "rev xs ! ?j = xs ! Suc i" using that by (simp add: rev_nth)
    moreover have "rev xs ! Suc ?j = xs ! i" using that by (simp add: rev_nth Suc_diff_Suc)
    ultimately show ?thesis using that by (intro exI [of _ ?j]) simp
  qed
  from this [of _ bs] this [of _ "rev bs"] show ?thesis
    unfolding adjacentEqual_iff by (metis rev_rev_ident)
qed

lemma hasBlockPairs_iff:
  assumes "direction = 1 \<or> direction = -1"
  shows "hasBlockPairs (findBlockPairs direction (map Some bs)) \<longleftrightarrow> adjacentEqual bs"
proof -
  let ?ss = "scanOrder direction bs"
  have len: "length ?ss = length bs" by (simp add: scanOrder_def)
  have r: "[0..<Suc (length bs)] = 0 # [Suc (length ([]::Block list))..<Suc (length ([] @ ?ss))]"
    by (simp add: len upt_rec)
  have s0: "scanStep direction ?ss ([], []) 0 = ([], [])"
    by (simp add: scanStep_def elemAt_def)
  have "snd (foldl (scanStep direction ?ss) ([], []) [0..<Suc (length bs)])
      = snd (foldl (scanStep direction ([] @ ?ss)) ([], []) [Suc (length ([]::Block list))..<Suc (length ([] @ ?ss))])"
    by (subst r) (simp only: foldl_Cons s0 append_Nil)
  then have "snd (foldl (scanStep direction ?ss) ([], []) [0..<Suc (length bs)]) \<noteq> [] \<longleftrightarrow> adjacentEqual ?ss"
    by (simp only: scan_paired)
  moreover have "adjacentEqual ?ss = adjacentEqual bs"
    by (simp add: scanOrder_def adjacentEqual_rev)
  ultimately show ?thesis
    unfolding findBlockPairs_scan [OF assms]
    by (cases "foldl (scanStep direction ?ss) ([], []) [0..<Suc (length bs)]") (simp del: upt_Suc)
qed


lemma anyLineHasPairs_total:
  assumes "\<forall>i \<in> set is. line i = Inr (blocks i)"
  shows "anyLineHasPairs line is = Inr (\<exists>i \<in> set is. hasBlockPairs (findBlockPairs 1 (blocks i)))"
  using assms by (induction "is") auto

lemma collect_Inr: "collect (map Inr xs) = Inr xs"
  by (induction xs) auto

lemma definedCells_Some: "definedCells (map Some cs) = Inr cs"
  using collect_Inr [of cs] by (simp add: definedCells_def comp_def)

lemma wf_row:
  assumes "wellFormed g" "r \<in> set (rows g)"
  shows "length r = nat (gsize g)"
  using assms by (simp add: wellFormed_def)

lemma columnBlocks_wf:
  assumes wf: "wellFormed g" and x: "x \<in> set (upTo (gsize g))"
  shows "columnBlocks g x = Inr (pluckBlocks (columnOf g (nat x)))"
proof -
  from x have x': "0 \<le> x" "x < gsize g" by (simp_all add: set_upTo)
  have "\<forall>r \<in> set (rows g). elemAt r x = Some (r ! nat x)"
    using x' wf_row [OF wf] by (auto simp add: elemAt_def)
  then have "getColumnAt x g = map Some (columnOf g (nat x))"
    by (simp add: getColumnAt_def columnOf_def)
  then show ?thesis by (simp add: columnBlocks_def definedCells_Some)
qed

lemma rowBlocks_wf:
  assumes wf: "wellFormed g" and y: "y \<in> set (upTo (gsize g))"
  shows "rowBlocks g y = Inr (pluckBlocks (rows g ! nat y))"
proof -
  from y have y': "0 \<le> y" "y < gsize g" by (simp_all add: set_upTo)
  then have "elemAt (rows g) y = Some (rows g ! nat y)"
    using wf by (intro elemAt_nth) (auto simp add: wellFormed_def)
  then show ?thesis by (simp add: rowBlocks_def getRowAt_def)
qed

lemma set_rows_wf:
  assumes "wellFormed g"
  shows "set (rows g) = (\<lambda>y. rows g ! nat y) ` set (upTo (gsize g))"
proof -
  have len: "length (rows g) = nat (gsize g)" using assms by (simp add: wellFormed_def)
  have "set (rows g) = (\<lambda>i. rows g ! i) ` {0..<nat (gsize g)}"
    using len by (auto simp add: set_conv_nth)
  also have "\<dots> = (\<lambda>y. rows g ! nat y) ` set (upTo (gsize g))"
    by (auto simp add: upTo_def image_image)
  finally show ?thesis .
qed

lemma set_gridColumns:
  "set (gridColumns g) = (\<lambda>x. columnOf g (nat x)) ` set (upTo (gsize g))"
  by (auto simp add: gridColumns_def upTo_def image_image)

lemma empty_positions_iff:
  assumes "wellFormed g"
  shows "filter (\<lambda>p. block (cellOf g p) = None) (cellPositions (gsize g)) \<noteq> []
         \<longleftrightarrow> (\<exists>c \<in> set (gridCells g). block c = None)"
proof -
  have "filter (\<lambda>p. block (cellOf g p) = None) (cellPositions (gsize g)) \<noteq> []
      \<longleftrightarrow> (\<exists>c \<in> cellOf g ` set (cellPositions (gsize g)). block c = None)"
    by (auto simp add: filter_empty_conv)
  then show ?thesis by (simp only: cells_visited [OF assms])
qed

lemma full_line:
  assumes "\<forall>c \<in> set cells. block c \<noteq> None"
  shows "pluckBlocks cells = map Some (lineBlocks cells)"
  using assms by (induction cells) (auto simp add: pluckBlocks_def lineBlocks_def)

lemma hasLost_wf:
  assumes wf: "wellFormed g"
  shows "hasLost g = Inr (\<not> (\<exists>c \<in> set (gridCells g). block c = None)
                        \<and> \<not> (\<exists>line \<in> set (gridColumns g). hasBlockPairs (findBlockPairs 1 (pluckBlocks line)))
                        \<and> \<not> (\<exists>line \<in> set (rows g). hasBlockPairs (findBlockPairs 1 (pluckBlocks line))))"
proof -
  let ?n = "gsize g"
  have cols: "anyLineHasPairs (columnBlocks g) (upTo ?n)
      = Inr (\<exists>x \<in> set (upTo ?n). hasBlockPairs (findBlockPairs 1 (pluckBlocks (columnOf g (nat x)))))"
    by (rule anyLineHasPairs_total) (simp add: columnBlocks_wf [OF wf])
  have rws: "anyLineHasPairs (rowBlocks g) (upTo ?n)
      = Inr (\<exists>y \<in> set (upTo ?n). hasBlockPairs (findBlockPairs 1 (pluckBlocks (rows g ! nat y))))"
    by (rule anyLineHasPairs_total) (simp add: rowBlocks_wf [OF wf])
  have c: "(\<exists>x \<in> set (upTo ?n). hasBlockPairs (findBlockPairs 1 (pluckBlocks (columnOf g (nat x)))))
      \<longleftrightarrow> (\<exists>line \<in> set (gridColumns g). hasBlockPairs (findBlockPairs 1 (pluckBlocks line)))"
    by (simp add: set_gridColumns)
  have r: "(\<exists>y \<in> set (upTo ?n). hasBlockPairs (findBlockPairs 1 (pluckBlocks (rows g ! nat y))))
      \<longleftrightarrow> (\<exists>line \<in> set (rows g). hasBlockPairs (findBlockPairs 1 (pluckBlocks line)))"
    by (simp add: set_rows_wf [OF wf])
  show ?thesis
    unfolding hasLost_def findEmptyCellPositions_wf [OF wf] cols rws c r
    using empty_positions_iff [OF wf]
    by (auto split: bool.splits)
qed

text \<open>The lines of a grid are made of its cells, and on a full board the pairing scan finds
  a pair in a line exactly when two neighbours of the line have the same value.\<close>

lemma line_cells:
  assumes wf: "wellFormed g" and line: "line \<in> set (rows g @ gridColumns g)"
  shows "set line \<subseteq> set (gridCells g)"
proof (cases "line \<in> set (rows g)")
  case True
  then show ?thesis by (auto simp add: gridCells_def)
next
  case False
  with line obtain x where x: "x < nat (gsize g)" "line = columnOf g x"
    by (auto simp add: gridColumns_def)
  have "r ! x \<in> set r" if "r \<in> set (rows g)" for r
    using wf_row [OF wf that] x by simp
  then show ?thesis using x by (auto simp add: columnOf_def gridCells_def)
qed

lemma full_line_pairs:
  assumes wf: "wellFormed g" and full: "\<forall>c \<in> set (gridCells g). block c \<noteq> None"
      and line: "line \<in> set (rows g @ gridColumns g)"
  shows "hasBlockPairs (findBlockPairs 1 (pluckBlocks line)) = adjacentEqual (lineBlocks line)"
proof -
  from line_cells [OF wf line] full have "\<forall>c \<in> set line. block c \<noteq> None" by auto
  then have "pluckBlocks line = map Some (lineBlocks line)" by (rule full_line)
  then show ?thesis by (simp add: hasBlockPairs_iff)
qed

text \<open>
  C2. On a well-formed grid \<^verbatim>\<open>hasLost\<close> returns a boolean. It returns false whenever some
  cell is empty, and whenever the blocks of some row or some column contain two neighbours
  of equal value. It returns true exactly when every cell holds a block and no row and no
  column has two neighbouring blocks of equal value; on a full board this is the same as
  the pairing scan finding a pair in no row and in no column.
\<close>

theorem hasLost_iff:
  assumes wf: "wellFormed g"
  shows "(\<exists>lost. hasLost g = Inr lost)
       \<and> ((\<exists>c \<in> set (gridCells g). block c = None) \<longrightarrow> hasLost g = Inr False)
       \<and> ((\<exists>line \<in> set (rows g @ gridColumns g). adjacentEqual (lineBlocks line)) \<longrightarrow> hasLost g = Inr False)
       \<and> (hasLost g = Inr True \<longleftrightarrow>
            (\<forall>c \<in> set (gridCells g). block c \<noteq> None)
            \<and> (\<forall>line \<in> set (rows g @ gridColumns g). \<not> adjacentEqual (lineBlocks line)))
       \<and> (hasLost g = Inr True \<longleftrightarrow>
            (\<forall>c \<in> set (gridCells g). block c \<noteq> None)
            \<and> (\<forall>line \<in> set (rows g @ gridColumns g). \<not> hasBlockPairs (findBlockPairs 1 (pluckBlocks line))))"
proof -
  note h = hasLost_wf [OF wf]
  have a: "\<exists>lost. hasLost g = Inr lost" using h by simp
  have b: "(\<exists>c \<in> set (gridCells g). block c = None) \<longrightarrow> hasLost g = Inr False"
    using h by simp
  have d: "hasLost g = Inr True \<longleftrightarrow>
            (\<forall>c \<in> set (gridCells g). block c \<noteq> None)
            \<and> (\<forall>line \<in> set (rows g @ gridColumns g). \<not> hasBlockPairs (findBlockPairs 1 (pluckBlocks line)))"
    unfolding h by auto
  have e: "hasLost g = Inr True \<longleftrightarrow>
            (\<forall>c \<in> set (gridCells g). block c \<noteq> None)
            \<and> (\<forall>line \<in> set (rows g @ gridColumns g). \<not> adjacentEqual (lineBlocks line))"
  proof (cases "\<forall>c \<in> set (gridCells g). block c \<noteq> None")
    case True
    have "(\<forall>line \<in> set (rows g @ gridColumns g). \<not> hasBlockPairs (findBlockPairs 1 (pluckBlocks line)))
        \<longleftrightarrow> (\<forall>line \<in> set (rows g @ gridColumns g). \<not> adjacentEqual (lineBlocks line))"
      using full_line_pairs [OF wf True] by blast
    with d True show ?thesis by blast
  next
    case False
    with d show ?thesis by blast
  qed
  have c: "(\<exists>line \<in> set (rows g @ gridColumns g). adjacentEqual (lineBlocks line)) \<longrightarrow> hasLost g = Inr False"
  proof
    assume "\<exists>line \<in> set (rows g @ gridColumns g). adjacentEqual (lineBlocks line)"
    with e have "hasLost g \<noteq> Inr True" by blast
    with a show "hasLost g = Inr False" by auto
  qed
  from a b c d e show ?thesis by blast
qed

theorem hasLost_iff_witness:
  "wellFormed gridWon \<and> hasLost gridWon = Inr False
   \<and> wellFormed gridStuck \<and> hasLost gridStuck = Inr True
   \<and> wellFormed gridStuckThree \<and> hasLost gridStuckThree = Inr True
   \<and> wellFormed gridColumnPair \<and> hasLost gridColumnPair = Inr False"
proof -
  have wf1: "wellFormed gridWon"
    by (simp add: wellFormed_def gridWon_def)
  have e: "\<exists>c \<in> set (gridCells gridWon). block c = None"
    by (simp add: gridCells_def gridWon_def makeEmptyCell_def)
  have l1: "hasLost gridWon = Inr False"
    using hasLost_iff [OF wf1] e by blast
  have wf2: "wellFormed gridStuck"
    by (simp add: wellFormed_def gridStuck_def)
  have f: "\<forall>c \<in> set (gridCells gridStuck). block c \<noteq> None"
    by code_simp
  have n: "\<forall>line \<in> set (rows gridStuck @ gridColumns gridStuck). \<not> adjacentEqual (lineBlocks line)"
    by code_simp
  have l2: "hasLost gridStuck = Inr True"
    using hasLost_iff [OF wf2] f n by blast
  have wf4: "wellFormed gridStuckThree"
    by (simp add: wellFormed_def gridStuckThree_def)
  have f4: "\<forall>c \<in> set (gridCells gridStuckThree). block c \<noteq> None"
    by code_simp
  have n4: "\<forall>line \<in> set (rows gridStuckThree @ gridColumns gridStuckThree). \<not> adjacentEqual (lineBlocks line)"
    by code_simp
  have l4: "hasLost gridStuckThree = Inr True"
    using hasLost_iff [OF wf4] f4 n4 by blast
  have wf3: "wellFormed gridColumnPair"
    by (simp add: wellFormed_def gridColumnPair_def)
  have p: "\<exists>line \<in> set (rows gridColumnPair @ gridColumns gridColumnPair). adjacentEqual (lineBlocks line)"
    by code_simp
  have l3: "hasLost gridColumnPair = Inr False"
    using hasLost_iff [OF wf3] p by blast
  from wf1 l1 wf2 l2 wf4 l4 wf3 l3 show ?thesis by simp
qed

section \<open>C10: the spawn on a full board\<close>

lemma foldl_or: "foldl (\<lambda>res p. if P p then True else res) acc ps = (acc \<or> (\<exists>p \<in> set ps. P p))"
  by (induction ps arbitrary: acc) auto

lemma hasNewCell_wf:
  assumes "wellFormed g"
  shows "hasNewCell g = Inr (\<exists>c \<in> set (gridCells g). \<exists>b. block c = Some b \<and> isNew b)"
proof -
  let ?P = "\<lambda>c. case block c of None \<Rightarrow> False | Some b \<Rightarrow> isNew b"
  have "hasNewCell g = Inr (foldl (\<lambda>res p. if ?P (cellOf g p) then True else res) False (cellPositions (gsize g)))"
    unfolding hasNewCell_def
    by (simp add: iterateCells_reader [OF assms, where f = "\<lambda>c position res. if ?P c then True else res"])
  also have "foldl (\<lambda>res p. if ?P (cellOf g p) then True else res) False (cellPositions (gsize g))
      = (\<exists>c \<in> cellOf g ` set (cellPositions (gsize g)). ?P c)"
    by (simp add: foldl_or)
  also have "\<dots> = (\<exists>c \<in> set (gridCells g). ?P c)"
    by (simp only: cells_visited [OF assms])
  also have "\<dots> = (\<exists>c \<in> set (gridCells g). \<exists>b. block c = Some b \<and> isNew b)"
    by (auto split: option.splits)
  finally show ?thesis .
qed

lemma randomIntInclusive_empty: "randomIntInclusive r 0 (int (length ([]::'a list)) - 1) = 0"
  by (simp add: randomIntInclusive_def)

lemma spawn_fault:
  assumes wf: "wellFormed g"
      and full: "\<forall>c \<in> set (gridCells g). block c \<noteq> None"
      and nonew: "\<forall>c \<in> set (gridCells g). \<forall>b. block c = Some b \<longrightarrow> \<not> isNew b"
  shows "hasNewCell g = Inr False"
    and "findEmptyCellPositions g = Inr []"
    and "arrayRandomItem r ([]::Vector list) = None"
    and "phaseHandler rt r \<lparr>sphase = SPAWN, sgrid = g\<rparr>
           = Inr (Some (ADD_NEW_BLOCK None (makeNewBlock (newBlockAddr rt) (newUuid rt) 2)))"
    and "reducer rt' \<lparr>sphase = SPAWN, sgrid = g\<rparr> (ADD_NEW_BLOCK None b) = Inl TypeError"
proof -
  show a: "hasNewCell g = Inr False"
    using nonew by (simp add: hasNewCell_wf [OF wf])
  have "\<not> (\<exists>c \<in> set (gridCells g). block c = None)" using full by blast
  then have "filter (\<lambda>p. block (cellOf g p) = None) (cellPositions (gsize g)) = []"
    using empty_positions_iff [OF wf] by blast
  then show b: "findEmptyCellPositions g = Inr []"
    by (simp add: findEmptyCellPositions_wf [OF wf])
  show c: "arrayRandomItem r ([]::Vector list) = None"
    by (simp add: arrayRandomItem_def elemAt_def)
  show "phaseHandler rt r \<lparr>sphase = SPAWN, sgrid = g\<rparr>
           = Inr (Some (ADD_NEW_BLOCK None (makeNewBlock (newBlockAddr rt) (newUuid rt) 2)))"
    by (simp add: phaseHandler_def a b c)
  show "reducer rt' \<lparr>sphase = SPAWN, sgrid = g\<rparr> (ADD_NEW_BLOCK None b) = Inl TypeError"
    by simp
qed

lemma filling_trace:
  "(case initReducer (runtimeOf 0) 2 of Inl e \<Rightarrow> None | Inr s0 \<Rightarrow> play s0 fillingEvents)
     = Some \<lparr>sphase = INPUT, sgrid = gridReached\<rparr>"
  by code_simp

lemma idle_key:
  "eventStep \<lparr>sphase = INPUT, sgrid = gridReached\<rparr> (KeyDown (runtimeOf 60) ''ArrowLeft'')
     = Some \<lparr>sphase = ACTIVE, sgrid = gridReached\<rparr>"
  by code_simp

lemma idle_trace:
  "play \<lparr>sphase = ACTIVE, sgrid = gridReached\<rparr> idleMoveEvents = Some \<lparr>sphase = SPAWN, sgrid = gridReached\<rparr>"
  by code_simp

lemma gridReached_full:
  "wellFormed gridReached"
  "\<forall>c \<in> set (gridCells gridReached). block c \<noteq> None"
  "\<forall>c \<in> set (gridCells gridReached). \<forall>b. block c = Some b \<longrightarrow> \<not> isNew b"
  by (simp_all add: wellFormed_def gridReached_def gridCells_def makeCellWithBlock_def)

lemma full_board_reachable:
  "\<exists>rt0 s0 evs sIn rtk k evs'.
      initReducer rt0 2 = Inr s0 \<and> play s0 evs = Some sIn \<and> sphase sIn = INPUT
    \<and> wellFormed (sgrid sIn) \<and> (\<forall>c \<in> set (gridCells (sgrid sIn)). block c \<noteq> None)
    \<and> eventStep sIn (KeyDown rtk k) = Some \<lparr>sphase = ACTIVE, sgrid = sgrid sIn\<rparr>
    \<and> play \<lparr>sphase = ACTIVE, sgrid = sgrid sIn\<rparr> evs' = Some \<lparr>sphase = SPAWN, sgrid = sgrid sIn\<rparr>"
proof -
  from filling_trace obtain s0 where s0: "initReducer (runtimeOf 0) 2 = Inr s0"
      "play s0 fillingEvents = Some \<lparr>sphase = INPUT, sgrid = gridReached\<rparr>"
    by (cases "initReducer (runtimeOf 0) 2") auto
  let ?sIn = "\<lparr>sphase = INPUT, sgrid = gridReached\<rparr>"
  have "initReducer (runtimeOf 0) 2 = Inr s0 \<and> play s0 fillingEvents = Some ?sIn \<and> sphase ?sIn = INPUT
    \<and> wellFormed (sgrid ?sIn) \<and> (\<forall>c \<in> set (gridCells (sgrid ?sIn)). block c \<noteq> None)
    \<and> eventStep ?sIn (KeyDown (runtimeOf 60) ''ArrowLeft'') = Some \<lparr>sphase = ACTIVE, sgrid = sgrid ?sIn\<rparr>
    \<and> play \<lparr>sphase = ACTIVE, sgrid = sgrid ?sIn\<rparr> idleMoveEvents = Some \<lparr>sphase = SPAWN, sgrid = sgrid ?sIn\<rparr>"
    using s0 idle_key idle_trace gridReached_full by simp
  then show ?thesis by blast
qed

text \<open>
  C10. On a well-formed grid with no empty cell and no new block the \<^verbatim>\<open>SPAWN\<close> handler does
  not spawn: \<^verbatim>\<open>findEmptyCellPositions\<close> returns the empty list, \<^verbatim>\<open>arrayRandomItem\<close> reads index
  0 of it and returns \<^verbatim>\<open>undefined\<close>, the handler dispatches \<^verbatim>\<open>ADD_NEW_BLOCK\<close> with that
  position, and the reducer's \<^verbatim>\<open>setBlockAt\<close> throws a \<^verbatim>\<open>TypeError\<close> on it. Such a state is
  reachable: a game on a 2 by 2 board leads from its initial state to the \<^verbatim>\<open>INPUT\<close> phase
  with a full board, where a key whose move changes nothing leads on to the \<^verbatim>\<open>SPAWN\<close> phase
  with the same full board.
\<close>

theorem spawn_on_full_board:
  assumes wf: "wellFormed g"
      and full: "\<forall>c \<in> set (gridCells g). block c \<noteq> None"
      and nonew: "\<forall>c \<in> set (gridCells g). \<forall>b. block c = Some b \<longrightarrow> \<not> isNew b"
  shows "findEmptyCellPositions g = Inr []
       \<and> randomIntInclusive r 0 (int (length ([]::Vector list)) - 1) = 0
       \<and> arrayRandomItem r ([]::Vector list) = None
       \<and> phaseHandler rt r \<lparr>sphase = SPAWN, sgrid = g\<rparr>
            = Inr (Some (ADD_NEW_BLOCK None (makeNewBlock (newBlockAddr rt) (newUuid rt) 2)))
       \<and> reducer rt \<lparr>sphase = SPAWN, sgrid = g\<rparr> (ADD_NEW_BLOCK None (makeNewBlock (newBlockAddr rt) (newUuid rt) 2))
            = Inl TypeError
       \<and> eventStep \<lparr>sphase = SPAWN, sgrid = g\<rparr> (Effect rt r) = None
       \<and> (\<exists>rt0 s0 evs sIn rtk k evs'.
            initReducer rt0 2 = Inr s0 \<and> play s0 evs = Some sIn \<and> sphase sIn = INPUT
          \<and> wellFormed (sgrid sIn) \<and> (\<forall>c \<in> set (gridCells (sgrid sIn)). block c \<noteq> None)
          \<and> eventStep sIn (KeyDown rtk k) = Some \<lparr>sphase = ACTIVE, sgrid = sgrid sIn\<rparr>
          \<and> play \<lparr>sphase = ACTIVE, sgrid = sgrid sIn\<rparr> evs' = Some \<lparr>sphase = SPAWN, sgrid = sgrid sIn\<rparr>)"
proof -
  note f = spawn_fault [OF wf full nonew]
  have h: "phaseHandler rt r \<lparr>sphase = SPAWN, sgrid = g\<rparr>
            = Inr (Some (ADD_NEW_BLOCK None (makeNewBlock (newBlockAddr rt) (newUuid rt) 2)))"
    by (rule f(4))
  have e: "eventStep \<lparr>sphase = SPAWN, sgrid = g\<rparr> (Effect rt r) = None"
    by (simp add: eventStep_def h)
  from f(2) randomIntInclusive_empty [of r] f(3) h f(5) e full_board_reachable
  show ?thesis by blast
qed

theorem spawn_on_full_board_witness:
  "wellFormed gridReached
   \<and> findEmptyCellPositions gridReached = Inr []
   \<and> phaseHandler (runtimeOf 63) 0 \<lparr>sphase = SPAWN, sgrid = gridReached\<rparr>
        = Inr (Some (ADD_NEW_BLOCK None (makeNewBlock (newBlockAddr (runtimeOf 63)) (newUuid (runtimeOf 63)) 2)))
   \<and> eventStep \<lparr>sphase = SPAWN, sgrid = gridReached\<rparr> (Effect (runtimeOf 63) 0) = None"
  using spawn_on_full_board [OF gridReached_full, of 0 "runtimeOf 63"] gridReached_full(1)
  by blast

section \<open>The clone in the store\<close>

lemma cloneRows_props:
  "cloneRows rws s = (copies, s') \<Longrightarrow>
     length copies = length rws
   \<and> cellObjects s' = cellObjects s
   \<and> nextAddr s \<le> nextAddr s'
   \<and> (\<forall>a \<in> set copies. nextAddr s \<le> a \<and> a < nextAddr s')
   \<and> (\<forall>a. a < nextAddr s \<longrightarrow> rowArrays s' a = rowArrays s a)"
proof (induction rws arbitrary: s copies s')
  case Nil
  then show ?case by simp
next
  case (Cons row rest)
  let ?s1 = "s\<lparr>rowArrays := (rowArrays s)(nextAddr s := jsSlice (rowArrays s row)), nextAddr := nextAddr s + 1\<rparr>"
  obtain cs s2 where c: "cloneRows rest ?s1 = (cs, s2)" by (cases "cloneRows rest ?s1")
  with Cons.prems have eq: "copies = nextAddr s # cs" "s' = s2" by (simp_all add: Let_def)
  from Cons.IH [OF c] have ih:
    "length cs = length rest" "cellObjects s2 = cellObjects ?s1" "nextAddr ?s1 \<le> nextAddr s2"
    "\<forall>a \<in> set cs. nextAddr ?s1 \<le> a \<and> a < nextAddr s2"
    "\<forall>a. a < nextAddr ?s1 \<longrightarrow> rowArrays s2 a = rowArrays ?s1 a"
    by blast+
  show ?case
    using ih unfolding eq by auto
qed

lemma cloneRows_copies:
  "cloneRows rws s = (copies, s') \<Longrightarrow> \<forall>a \<in> set rws. a < nextAddr s
     \<Longrightarrow> \<forall>i < length rws. rowArrays s' (copies ! i) = jsSlice (rowArrays s (rws ! i))"
proof (induction rws arbitrary: s copies s')
  case Nil
  then show ?case by simp
next
  case (Cons row rest)
  let ?s1 = "s\<lparr>rowArrays := (rowArrays s)(nextAddr s := jsSlice (rowArrays s row)), nextAddr := nextAddr s + 1\<rparr>"
  obtain cs s2 where c: "cloneRows rest ?s1 = (cs, s2)" by (cases "cloneRows rest ?s1")
  with Cons.prems have eq: "copies = nextAddr s # cs" "s' = s2" by (simp_all add: Let_def)
  have lt: "\<forall>a \<in> set rest. a < nextAddr ?s1" using Cons.prems(2) by auto
  note ih = Cons.IH [OF c lt]
  note p = cloneRows_props [OF c]
  have keep: "rowArrays s2 (nextAddr s) = jsSlice (rowArrays s row)"
    using p by auto
  have old: "\<And>a. a \<in> set rest \<Longrightarrow> rowArrays ?s1 a = rowArrays s a"
    using Cons.prems(2) by auto
  show ?case
  proof (intro allI impI)
    fix i assume i: "i < length (row # rest)"
    show "rowArrays s' ((copies) ! i) = jsSlice (rowArrays s ((row # rest) ! i))"
    proof (cases i)
      case 0
      then show ?thesis using keep by (simp add: eq)
    next
      case (Suc j)
      with i have j: "j < length rest" by simp
      with ih have "rowArrays s2 (cs ! j) = jsSlice (rowArrays ?s1 (rest ! j))" by blast
      moreover have "rowArrays ?s1 (rest ! j) = rowArrays s (rest ! j)"
        using old j by (metis nth_mem)
      ultimately show ?thesis using Suc by (simp add: eq)
    qed
  qed
qed

text \<open>The row arrays of the clone hold the cell objects of the original.\<close>

lemma getCellAt_clone:
  assumes alloc: "\<forall>a \<in> set (rrows g). a < nextAddr s"
      and wf: "\<forall>a \<in> set (rrows g). \<forall>i. aprops (rowArrays s a) i \<noteq> None \<longrightarrow> 0 \<le> i \<and> i < int (alen (rowArrays s a))"
      and cl: "cloneGrid_store g s = (g', s')"
  shows "getCellAt_store p g' s' = getCellAt_store p g s"
    and "getCellAt_store p g s' = getCellAt_store p g s"
    and "cellObjects s' = cellObjects s"
    and "set (rrows g') \<inter> set (rrows g) = {}"
proof -
  obtain copies where c: "cloneRows (rrows g) s = (copies, s')" and g': "g' = \<lparr>rsize = rsize g, rrows = copies\<rparr>"
    using cl by (auto simp add: cloneGrid_store_def split: prod.splits)
  note p = cloneRows_props [OF c]
  note q = cloneRows_copies [OF c alloc]
  have len: "length copies = length (rrows g)" using p by simp
  show "cellObjects s' = cellObjects s" using p by simp
  show "set (rrows g') \<inter> set (rrows g) = {}"
  proof -
    have "\<And>x. x \<in> set copies \<Longrightarrow> x \<in> set (rrows g) \<Longrightarrow> False"
    proof -
      fix x assume "x \<in> set copies" "x \<in> set (rrows g)"
      with p alloc have "nextAddr s \<le> x" "x < nextAddr s" by blast+
      then show False by simp
    qed
    then show ?thesis by (auto simp add: g')
  qed
  show "getCellAt_store p g s' = getCellAt_store p g s"
  proof (cases "elemAt (rrows g) (vy p)")
    case None
    then show ?thesis by (simp add: getCellAt_store_def)
  next
    case (Some a)
    then have "a \<in> set (rrows g)" by (auto simp add: elemAt_def split: if_splits)
    with alloc p have "rowArrays s' a = rowArrays s a" by auto
    with Some show ?thesis by (simp add: getCellAt_store_def)
  qed
  show "getCellAt_store p g' s' = getCellAt_store p g s"
  proof (cases "0 \<le> vy p \<and> vy p < int (length (rrows g))")
    case False
    then show ?thesis using len by (auto simp add: getCellAt_store_def elemAt_def g')
  next
    case True
    let ?i = "nat (vy p)"
    have i: "?i < length (rrows g)" using True by auto
    have e1: "elemAt (rrows g) (vy p) = Some (rrows g ! ?i)" using True by (simp add: elemAt_def)
    have e2: "elemAt copies (vy p) = Some (copies ! ?i)" using True len by (simp add: elemAt_def)
    have a: "rowArrays s' (copies ! ?i) = jsSlice (rowArrays s (rrows g ! ?i))" using q i by blast
    have "rrows g ! ?i \<in> set (rrows g)" using i by simp
    with wf have "\<forall>k. aprops (rowArrays s (rrows g ! ?i)) k \<noteq> None \<longrightarrow> 0 \<le> k \<and> k < int (alen (rowArrays s (rrows g ! ?i)))"
      by blast
    then have "aprops (rowArrays s (rrows g ! ?i)) (vx p) = None"
      if "\<not> (0 \<le> vx p \<and> vx p < int (alen (rowArrays s (rrows g ! ?i))))"
      using that by blast
    then have "jsGet (jsSlice (rowArrays s (rrows g ! ?i))) (vx p) = jsGet (rowArrays s (rrows g ! ?i)) (vx p)"
      by (cases "0 \<le> vx p \<and> vx p < int (alen (rowArrays s (rrows g ! ?i)))")
         (simp_all add: jsGet_def jsSlice_def)
    then show ?thesis by (simp add: getCellAt_store_def g' e1 e2 a)
  qed
qed


lemma wellFormed_store_rows:
  assumes "wellFormed_store g s"
  shows "\<forall>a \<in> set (rrows g). a < nextAddr s"
    and "\<forall>a \<in> set (rrows g). \<forall>i. aprops (rowArrays s a) i \<noteq> None \<longrightarrow> 0 \<le> i \<and> i < int (alen (rowArrays s a))"
  using assms by (auto simp add: wellFormed_store_def)

section \<open>C8: the clone shares its cells\<close>

lemma getCellAt_store_cellObjects:
  "getCellAt_store p g (s\<lparr>cellObjects := f\<rparr>) = getCellAt_store p g s"
  by (simp add: getCellAt_store_def split: option.splits)

text \<open>
  C8. The \<^verbatim>\<open>ADD_NEW_BLOCK\<close> transition (\<^verbatim>\<open>cloneGrid\<close>, then \<^verbatim>\<open>setBlockAt\<close> on the clone) on a
  well-formed grid, at a position that holds a cell: the clone has row arrays of its own,
  but the cell at the position is the same object in the clone and in the original grid,
  and the transition has overwritten the \<^verbatim>\<open>block\<close> field of that object. The original grid
  therefore shows the new block as well: the transition mutates a field of a cell of the
  snapshot it was given.
\<close>

theorem add_new_block_shares_cells:
  assumes wf: "wellFormed_store g s" and cell: "getCellAt_store p g s = Inr (Some c)"
  shows "\<exists>g' s'. addNewBlock_store (Some p) b g s = Inr (g', s')
          \<and> set (rrows g') \<inter> set (rrows g) = {}
          \<and> getCellAt_store p g' s' = Inr (Some c)
          \<and> getCellAt_store p g s' = Inr (Some c)
          \<and> cellObjects s' c = (cellObjects s c)\<lparr>block := Some b\<rparr>"
proof -
  obtain g' s1 where cl: "cloneGrid_store g s = (g', s1)" by (cases "cloneGrid_store g s")
  note k = getCellAt_clone [OF wellFormed_store_rows [OF wf] cl]
  have c1: "getCellAt_store p g' s1 = Inr (Some c)" using k(1) [of p] cell by simp
  have c2: "getCellAt_store p g s1 = Inr (Some c)" using k(2) [of p] cell by simp
  let ?s2 = "s1\<lparr>cellObjects := (cellObjects s1)(c := (cellObjects s1 c)\<lparr>block := Some b\<rparr>)\<rparr>"
  have sb: "setBlockAt_store p (Some b) g' s1 = Inr ?s2"
    using c1 by (auto simp add: setBlockAt_store_def getCellAt_store_def split: option.splits)
  have r: "addNewBlock_store (Some p) b g s = Inr (g', ?s2)"
    by (simp add: addNewBlock_store_def cl sb)
  have "getCellAt_store p g' ?s2 = Inr (Some c)" "getCellAt_store p g ?s2 = Inr (Some c)"
    using c1 c2 by (simp_all only: getCellAt_store_cellObjects)
  moreover have "cellObjects ?s2 c = (cellObjects s c)\<lparr>block := Some b\<rparr>"
    using k(3) by simp
  ultimately show ?thesis using r k(4) by blast
qed

lemma exampleStore_wf: "wellFormed_store exampleGridRef exampleStore"
proof -
  have "\<And>i::int. (0 \<le> i \<and> i < 2) = (elemAt [1, 2::int] i \<noteq> None)"
    by (simp add: elemAt_def)
  moreover have "\<And>i::int. (0 \<le> i \<and> i < 2) = (elemAt [3, 4::int] i \<noteq> None)"
    by (simp add: elemAt_def)
  ultimately show ?thesis
    by (simp add: wellFormed_store_def exampleGridRef_def exampleStore_def arrayOf_def)
qed

lemma exampleStore_cell:
  "getCellAt_store \<lparr>vx = 1, vy = 0\<rparr> exampleGridRef exampleStore = Inr (Some 2)"
  by (simp add: getCellAt_store_def exampleGridRef_def exampleStore_def arrayOf_def elemAt_def jsGet_def)

theorem add_new_block_shares_cells_witness:
  "wellFormed_store exampleGridRef exampleStore
   \<and> getCellAt_store \<lparr>vx = 1, vy = 0\<rparr> exampleGridRef exampleStore = Inr (Some 2)
   \<and> block (cellObjects exampleStore 2) = None
   \<and> (\<exists>g' s'. addNewBlock_store (Some \<lparr>vx = 1, vy = 0\<rparr>) (makeNewBlock 30 ''new'' 2) exampleGridRef exampleStore = Inr (g', s')
        \<and> set (rrows g') \<inter> set (rrows exampleGridRef) = {}
        \<and> getCellAt_store \<lparr>vx = 1, vy = 0\<rparr> exampleGridRef s' = Inr (Some 2)
        \<and> block (cellObjects s' 2) = Some (makeNewBlock 30 ''new'' 2))"
proof -
  have e: "block (cellObjects exampleStore 2) = None"
    by (simp add: exampleStore_def makeEmptyCell_def)
  from add_new_block_shares_cells [OF exampleStore_wf exampleStore_cell, of "makeNewBlock 30 ''new'' 2"]
  obtain g' s' where
    "addNewBlock_store (Some \<lparr>vx = 1, vy = 0\<rparr>) (makeNewBlock 30 ''new'' 2) exampleGridRef exampleStore = Inr (g', s')"
    "set (rrows g') \<inter> set (rrows exampleGridRef) = {}"
    "getCellAt_store \<lparr>vx = 1, vy = 0\<rparr> exampleGridRef s' = Inr (Some 2)"
    "cellObjects s' 2 = (cellObjects exampleStore 2)\<lparr>block := Some (makeNewBlock 30 ''new'' 2)\<rparr>"
    by blast
  then have "\<exists>g' s'. addNewBlock_store (Some \<lparr>vx = 1, vy = 0\<rparr>) (makeNewBlock 30 ''new'' 2) exampleGridRef exampleStore = Inr (g', s')
        \<and> set (rrows g') \<inter> set (rrows exampleGridRef) = {}
        \<and> getCellAt_store \<lparr>vx = 1, vy = 0\<rparr> exampleGridRef s' = Inr (Some 2)
        \<and> block (cellObjects s' 2) = Some (makeNewBlock 30 ''new'' 2)"
    by (intro exI [of _ g'] exI [of _ s']) simp
  with exampleStore_wf exampleStore_cell e show ?thesis by blast
qed

text \<open>The sibling path: \<^verbatim>\<open>setCellAt\<close> on the clone replaces an entry of the clone's own row
  array and leaves the original grid as it was.\<close>

lemma setCellAt_on_clone_frame:
  assumes wf: "wellFormed_store g s" and cl: "cloneGrid_store g s = (g', s1)"
      and st: "setCellAt_store p c g' s1 = Inr s2"
  shows "getCellAt_store q g s2 = getCellAt_store q g s" and "cellObjects s2 = cellObjects s"
proof -
  note k = getCellAt_clone [OF wellFormed_store_rows [OF wf] cl]
  from st obtain a where a: "elemAt (rrows g') (vy p) = Some a"
      "s2 = s1\<lparr>rowArrays := (rowArrays s1)(a := jsSet (rowArrays s1 a) (vx p) c)\<rparr>"
    by (auto simp add: setCellAt_store_def split: option.splits)
  then have "a \<in> set (rrows g')" by (auto simp add: elemAt_def split: if_splits)
  with k(4) have na: "a \<notin> set (rrows g)" by blast
  show "cellObjects s2 = cellObjects s" using a k(3) by simp
  have "getCellAt_store q g s2 = getCellAt_store q g s1"
  proof (cases "elemAt (rrows g) (vy q)")
    case None
    then show ?thesis by (simp add: getCellAt_store_def)
  next
    case (Some r)
    then have "r \<in> set (rrows g)" by (auto simp add: elemAt_def split: if_splits)
    with na have "r \<noteq> a" by blast
    with Some a show ?thesis by (simp add: getCellAt_store_def)
  qed
  with k(2) [of q] show "getCellAt_store q g s2 = getCellAt_store q g s" by simp
qed

section \<open>C6: the accessors out of range\<close>




end
